theory Spec2Isabelle
  imports Main "HOL-Library.Word"
begin

section \<open>Data model\<close>

text \<open>
  The repository holds two packages with the same API: \<open>grouplock\<close> (type \<open>GroupLock\<close>,
  file grouplock.go) and \<open>klocker\<close> (type \<open>Mutex\<close>). Their \<open>Lock\<close>, \<open>Unlock\<close>,
  \<open>cleaner\<close> and \<open>Stop\<close> are the same text; only \<open>cleanup\<close> differs: klocker's takes
  the item's mutex around the check of the count, grouplock's does not.

  A \<open>lockItem\<close> is reached through a pointer, and a goroutine keeps that pointer in
  the local \<open>lockData\<close> while the registry may already have dropped it. So items live in
  an explicit heap, and the registry \<open>locks\<close> maps a key to an address. The mutex of an
  item is allocated with the item and never replaced, so it is a field of the item:
  \<open>True\<close> means locked. A Go \<open>sync.Mutex\<close> has no owner.
\<close>

type_synonym key = string
type_synonym addr = nat

record lockItem =
  mutex :: bool
  count :: "32 word"

datatype chan = Open | Closed

text \<open>
  \<open>cleanKeys\<close> is a \<open>sync.Map\<close> used as a set of keys. It is a list here because
  \<open>cleanup\<close> ranges over it: the list is the order in which \<open>Range\<close> visits the keys,
  which Go leaves open. The theorems below hold for every list.
\<close>

record GroupLock =
  heap :: "addr \<Rightarrow> lockItem"
  nextAddr :: addr
  locks :: "key \<rightharpoonup> addr"
  cleanKeys :: "key list"
  closeCh :: chan
  interval :: int

datatype failure = Panic_close_of_closed_channel | Fatal_unlock_of_unlocked_mutex

text \<open>
  What a call does when it runs with no other goroutine in between: it returns, or it
  waits on a mutex (with the shared state as it is while it waits), or the program fails.
\<close>

datatype 'a outcome = Returns 'a | Blocks GroupLock | Fails failure

section \<open>The atomic operations\<close>

text \<open>
  \<open>sync.Map.LoadOrStore\<close>. The item passed in is stored only when the key is absent;
  the item built for a call that finds the key is unreachable and is not allocated here.
\<close>

definition LoadOrStore :: "key \<Rightarrow> GroupLock \<Rightarrow> addr \<times> GroupLock" where
  "LoadOrStore k gl =
     (case locks gl k of
        Some a \<Rightarrow> (a, gl)
      | None \<Rightarrow>
          (let a = nextAddr gl
           in (a, gl\<lparr>heap := (heap gl)(a := \<lparr>mutex = False, count = 0\<rparr>),
                     nextAddr := Suc a,
                     locks := (locks gl)(k \<mapsto> a)\<rparr>)))"

definition Load :: "key \<Rightarrow> GroupLock \<Rightarrow> addr option" where
  "Load k gl = locks gl k"

definition Delete :: "key \<Rightarrow> GroupLock \<Rightarrow> GroupLock" where
  "Delete k gl = gl\<lparr>locks := (locks gl)(k := None)\<rparr>"

text \<open>\<open>atomic.AddInt32\<close> wraps around and returns the new value.\<close>

definition AddInt32 :: "addr \<Rightarrow> 32 word \<Rightarrow> GroupLock \<Rightarrow> 32 word \<times> GroupLock" where
  "AddInt32 a d gl =
     (let n = count (heap gl a) + d
      in (n, gl\<lparr>heap := (heap gl)(a := (heap gl a)\<lparr>count := n\<rparr>)\<rparr>))"

definition LoadInt32 :: "addr \<Rightarrow> GroupLock \<Rightarrow> 32 word" where
  "LoadInt32 a gl = count (heap gl a)"

text \<open>\<open>sync.Mutex.Lock\<close>: \<open>None\<close> when the mutex is held, so the caller has to wait.\<close>

definition mutex_Lock :: "addr \<Rightarrow> GroupLock \<Rightarrow> GroupLock option" where
  "mutex_Lock a gl =
     (if mutex (heap gl a) then None
      else Some (gl\<lparr>heap := (heap gl)(a := (heap gl a)\<lparr>mutex := True\<rparr>)\<rparr>))"

text \<open>\<open>sync.Mutex.Unlock\<close>: unlocking a mutex that is not locked is a fatal error.\<close>

definition mutex_Unlock :: "addr \<Rightarrow> GroupLock \<Rightarrow> failure + GroupLock" where
  "mutex_Unlock a gl =
     (if mutex (heap gl a)
      then Inr (gl\<lparr>heap := (heap gl)(a := (heap gl a)\<lparr>mutex := False\<rparr>)\<rparr>)
      else Inl Fatal_unlock_of_unlocked_mutex)"

text \<open>
  \<open>cleanKeys.Store\<close> puts a new key at the end of the list, so a pass that starts later
  visits the keys in the order in which they were stored. \<open>Range\<close> may visit them in
  any order; the theorems about a pass are stated for an arbitrary list, and the
  schedules evaluated below have one pending key.
\<close>

definition cleanKeys_Store :: "key \<Rightarrow> GroupLock \<Rightarrow> GroupLock" where
  "cleanKeys_Store k gl =
     gl\<lparr>cleanKeys := (if k \<in> set (cleanKeys gl) then cleanKeys gl else cleanKeys gl @ [k])\<rparr>"

definition cleanKeys_Delete :: "key \<Rightarrow> GroupLock \<Rightarrow> GroupLock" where
  "cleanKeys_Delete k gl = gl\<lparr>cleanKeys := removeAll k (cleanKeys gl)\<rparr>"

text \<open>The builtin \<open>close\<close>: closing a closed channel panics.\<close>

definition close_chan :: "GroupLock \<Rightarrow> failure + GroupLock" where
  "close_chan gl =
     (case closeCh gl of
        Open \<Rightarrow> Inr (gl\<lparr>closeCh := Closed\<rparr>)
      | Closed \<Rightarrow> Inl Panic_close_of_closed_channel)"

section \<open>The API, one call at a time\<close>

definition defaultCleanInterval :: int where
  "defaultCleanInterval = 30 * 60 * 1000000000"

definition WithCleanInterval :: "int \<Rightarrow> GroupLock \<Rightarrow> GroupLock" where
  "WithCleanInterval i gl = (if i > 0 then gl\<lparr>interval := i\<rparr> else gl)"

definition New :: "(GroupLock \<Rightarrow> GroupLock) list \<Rightarrow> GroupLock" where
  "New opts =
     fold (\<lambda>opt gl. opt gl) opts
       \<lparr>heap = (\<lambda>_. \<lparr>mutex = False, count = 0\<rparr>), nextAddr = 0, locks = Map.empty,
        cleanKeys = [], closeCh = Open, interval = defaultCleanInterval\<rparr>"

definition Lock :: "key \<Rightarrow> GroupLock \<Rightarrow> GroupLock outcome" where
  "Lock key gl =
     (let (lockData, gl1) = LoadOrStore key gl;
          (n, gl2) = AddInt32 lockData 1 gl1
      in case mutex_Lock lockData gl2 of
           None \<Rightarrow> Blocks gl2
         | Some gl3 \<Rightarrow> Returns gl3)"

definition Unlock :: "key \<Rightarrow> GroupLock \<Rightarrow> GroupLock outcome" where
  "Unlock key gl =
     (case Load key gl of
        None \<Rightarrow> Returns gl
      | Some lockData \<Rightarrow>
          (case mutex_Unlock lockData gl of
             Inl e \<Rightarrow> Fails e
           | Inr gl1 \<Rightarrow>
               (let (newCount, gl2) = AddInt32 lockData (- 1) gl1
                in if sint newCount \<le> 0 then Returns (cleanKeys_Store key gl2)
                   else Returns gl2)))"

definition Stop :: "GroupLock \<Rightarrow> GroupLock outcome" where
  "Stop gl = (case close_chan gl of Inl e \<Rightarrow> Fails e | Inr gl1 \<Rightarrow> Returns gl1)"

section \<open>The sweep, one pass at a time\<close>

text \<open>
  \<open>GroupLock.cleanup\<close> of grouplock.go. \<open>cleanup_range\<close> is the \<open>Range\<close> over
  \<open>cleanKeys\<close> with its callback; it returns the state and \<open>keysToRemove\<close>.
\<close>

fun cleanup_range :: "key list \<Rightarrow> GroupLock \<Rightarrow> key list \<Rightarrow> GroupLock \<times> key list" where
  "cleanup_range [] gl keysToRemove = (gl, keysToRemove)"
| "cleanup_range (k # ks) gl keysToRemove =
     (case Load k gl of
        None \<Rightarrow> cleanup_range ks gl keysToRemove
      | Some lockData \<Rightarrow>
          if sint (LoadInt32 lockData gl) \<le> 0
          then cleanup_range ks (Delete k gl) (keysToRemove @ [k])
          else cleanup_range ks gl keysToRemove)"

definition cleanup :: "GroupLock \<Rightarrow> GroupLock" where
  "cleanup gl =
     (let (gl1, keysToRemove) = cleanup_range (cleanKeys gl) gl []
      in fold cleanKeys_Delete keysToRemove gl1)"

text \<open>
  \<open>Mutex.cleanup\<close> of klocker: the same pass with \<open>lockData.mutex.Lock()\<close> before the
  check and \<open>lockData.mutex.Unlock()\<close> after it. The \<open>Lock\<close> is the blocking one.
\<close>

fun klocker_range :: "key list \<Rightarrow> GroupLock \<Rightarrow> key list \<Rightarrow> (GroupLock \<times> key list) outcome" where
  "klocker_range [] gl keysToRemove = Returns (gl, keysToRemove)"
| "klocker_range (k # ks) gl keysToRemove =
     (case Load k gl of
        None \<Rightarrow> klocker_range ks gl keysToRemove
      | Some lockData \<Rightarrow>
          (case mutex_Lock lockData gl of
             None \<Rightarrow> Blocks gl
           | Some gl1 \<Rightarrow>
               (let (gl2, keysToRemove2) =
                      (if sint (LoadInt32 lockData gl1) \<le> 0
                       then (Delete k gl1, keysToRemove @ [k])
                       else (gl1, keysToRemove))
                in case mutex_Unlock lockData gl2 of
                     Inl e \<Rightarrow> Fails e
                   | Inr gl3 \<Rightarrow> klocker_range ks gl3 keysToRemove2)))"

definition klocker_cleanup :: "GroupLock \<Rightarrow> GroupLock outcome" where
  "klocker_cleanup gl =
     (case klocker_range (cleanKeys gl) gl [] of
        Returns (gl1, keysToRemove) \<Rightarrow> Returns (fold cleanKeys_Delete keysToRemove gl1)
      | Blocks gl1 \<Rightarrow> Blocks gl1
      | Fails e \<Rightarrow> Fails e)"

section \<open>Goroutines: one atomic operation at a time\<close>

text \<open>
  Calls of several goroutines interleave between the atomic operations of the source:
  the operations of \<open>sync.Map\<close>, of \<open>sync/atomic\<close> and of \<open>sync.Mutex\<close>. A program
  counter names the operation a goroutine performs next, with the locals it holds
  (\<open>key\<close>, \<open>lockData\<close>).
\<close>

datatype call = CallLock key | CallUnlock key | CallStop

datatype pc =
    Idle
  | Lock_LoadOrStore key
  | Lock_AddInt32 key addr
  | Lock_mutex_Lock key addr
  | Unlock_Load key
  | Unlock_mutex_Unlock key addr
  | Unlock_AddInt32 key addr
  | Unlock_Store key
  | Stop_close

datatype 'a progress = Steps 'a | Disabled | Crashes failure

fun pc_step :: "pc \<Rightarrow> GroupLock \<Rightarrow> (pc \<times> GroupLock) progress" where
  "pc_step Idle gl = Disabled"
| "pc_step (Lock_LoadOrStore key) gl =
     (let (lockData, gl1) = LoadOrStore key gl in Steps (Lock_AddInt32 key lockData, gl1))"
| "pc_step (Lock_AddInt32 key lockData) gl =
     (let (n, gl1) = AddInt32 lockData 1 gl in Steps (Lock_mutex_Lock key lockData, gl1))"
| "pc_step (Lock_mutex_Lock key lockData) gl =
     (case mutex_Lock lockData gl of None \<Rightarrow> Disabled | Some gl1 \<Rightarrow> Steps (Idle, gl1))"
| "pc_step (Unlock_Load key) gl =
     (case Load key gl of
        None \<Rightarrow> Steps (Idle, gl)
      | Some lockData \<Rightarrow> Steps (Unlock_mutex_Unlock key lockData, gl))"
| "pc_step (Unlock_mutex_Unlock key lockData) gl =
     (case mutex_Unlock lockData gl of
        Inl e \<Rightarrow> Crashes e
      | Inr gl1 \<Rightarrow> Steps (Unlock_AddInt32 key lockData, gl1))"
| "pc_step (Unlock_AddInt32 key lockData) gl =
     (let (newCount, gl1) = AddInt32 lockData (- 1) gl
      in Steps (if sint newCount \<le> 0 then Unlock_Store key else Idle, gl1))"
| "pc_step (Unlock_Store key) gl = Steps (Idle, cleanKeys_Store key gl)"
| "pc_step Stop_close gl =
     (case close_chan gl of Inl e \<Rightarrow> Crashes e | Inr gl1 \<Rightarrow> Steps (Idle, gl1))"

text \<open>
  A goroutine makes the calls of \<open>todo\<close> one after the other. \<open>holding\<close> is not in the
  source: it records the keys whose \<open>Lock\<close> has returned to this goroutine and whose
  \<open>Unlock\<close> it has not called yet, that is, the critical sections it is in.
\<close>

record goroutine =
  pc :: pc
  todo :: "call list"
  holding :: "key list"

fun start :: "call \<Rightarrow> pc" where
  "start (CallLock key) = Lock_LoadOrStore key"
| "start (CallUnlock key) = Unlock_Load key"
| "start CallStop = Stop_close"

fun enter :: "goroutine \<Rightarrow> goroutine option" where
  "enter g =
     (if pc g \<noteq> Idle then Some g
      else case todo g of
             [] \<Rightarrow> None
           | c # cs \<Rightarrow>
               Some (g\<lparr>pc := start c, todo := cs,
                       holding := (case c of CallUnlock key \<Rightarrow> removeAll key (holding g)
                                   | _ \<Rightarrow> holding g)\<rparr>))"

fun acquired :: "pc \<Rightarrow> key list" where
  "acquired (Lock_mutex_Lock key lockData) = [key]"
| "acquired _ = []"

definition goroutine_step :: "goroutine \<Rightarrow> GroupLock \<Rightarrow> (goroutine \<times> GroupLock) progress" where
  "goroutine_step g gl =
     (case enter g of
        None \<Rightarrow> Disabled
      | Some g1 \<Rightarrow>
          (case pc_step (pc g1) gl of
             Steps (p, gl1) \<Rightarrow> Steps (g1\<lparr>pc := p, holding := holding g1 @ acquired (pc g1)\<rparr>, gl1)
           | Disabled \<Rightarrow> Disabled
           | Crashes e \<Rightarrow> Crashes e))"

text \<open>
  The goroutine started by \<open>New\<close> runs \<open>cleaner\<close>: it waits in the \<open>select\<close>, and a
  tick runs \<open>cleanup\<close>. The program counter of the pass holds the keys \<open>Range\<close> has still
  to visit and \<open>keysToRemove\<close>. \<open>Range\<close> is taken to visit the keys that are in
  \<open>cleanKeys\<close> when it starts. The two packages differ in the two mutex operations.
\<close>

datatype variant = Grouplock | Klocker

datatype cleaner_pc =
    Cleaner_select
  | Cleanup_Range "key list" "key list"
  | Cleanup_mutex_Lock key addr "key list" "key list"
  | Cleanup_LoadInt32 key addr "key list" "key list"
  | Cleanup_Delete key addr "key list" "key list"
  | Cleanup_mutex_Unlock addr "key list" "key list"
  | Cleanup_cleanKeys_Delete "key list"
  | Cleaner_returned

fun after_check :: "variant \<Rightarrow> addr \<Rightarrow> key list \<Rightarrow> key list \<Rightarrow> cleaner_pc" where
  "after_check Grouplock lockData ks keysToRemove = Cleanup_Range ks keysToRemove"
| "after_check Klocker lockData ks keysToRemove = Cleanup_mutex_Unlock lockData ks keysToRemove"

fun before_check :: "variant \<Rightarrow> key \<Rightarrow> addr \<Rightarrow> key list \<Rightarrow> key list \<Rightarrow> cleaner_pc" where
  "before_check Grouplock k lockData ks keysToRemove = Cleanup_LoadInt32 k lockData ks keysToRemove"
| "before_check Klocker k lockData ks keysToRemove = Cleanup_mutex_Lock k lockData ks keysToRemove"

fun sweep_step :: "variant \<Rightarrow> cleaner_pc \<Rightarrow> GroupLock \<Rightarrow> (cleaner_pc \<times> GroupLock) progress" where
  "sweep_step v Cleaner_select gl = Disabled"
| "sweep_step v Cleaner_returned gl = Disabled"
| "sweep_step v (Cleanup_Range [] keysToRemove) gl =
     Steps (Cleanup_cleanKeys_Delete keysToRemove, gl)"
| "sweep_step v (Cleanup_Range (k # ks) keysToRemove) gl =
     (case Load k gl of
        None \<Rightarrow> Steps (Cleanup_Range ks keysToRemove, gl)
      | Some lockData \<Rightarrow> Steps (before_check v k lockData ks keysToRemove, gl))"
| "sweep_step v (Cleanup_mutex_Lock k lockData ks keysToRemove) gl =
     (case mutex_Lock lockData gl of
        None \<Rightarrow> Disabled
      | Some gl1 \<Rightarrow> Steps (Cleanup_LoadInt32 k lockData ks keysToRemove, gl1))"
| "sweep_step v (Cleanup_LoadInt32 k lockData ks keysToRemove) gl =
     (if sint (LoadInt32 lockData gl) \<le> 0
      then Steps (Cleanup_Delete k lockData ks keysToRemove, gl)
      else Steps (after_check v lockData ks keysToRemove, gl))"
| "sweep_step v (Cleanup_Delete k lockData ks keysToRemove) gl =
     Steps (after_check v lockData ks (keysToRemove @ [k]), Delete k gl)"
| "sweep_step v (Cleanup_mutex_Unlock lockData ks keysToRemove) gl =
     (case mutex_Unlock lockData gl of
        Inl e \<Rightarrow> Crashes e
      | Inr gl1 \<Rightarrow> Steps (Cleanup_Range ks keysToRemove, gl1))"
| "sweep_step v (Cleanup_cleanKeys_Delete []) gl = Steps (Cleaner_select, gl)"
| "sweep_step v (Cleanup_cleanKeys_Delete (k # keysToRemove)) gl =
     Steps (Cleanup_cleanKeys_Delete keysToRemove, cleanKeys_Delete k gl)"

text \<open>
  The whole program: the shared state, the goroutines that call the API and the cleaner.
  An event is what happens next: goroutine \<open>i\<close> performs its next operation, the
  \<open>select\<close> of the cleaner takes the case of the ticker or the case of \<open>closeCh\<close>
  (ready once the channel is closed), or the pass performs its next operation.
\<close>

record config =
  shared :: GroupLock
  goroutines :: "goroutine list"
  cleaner :: cleaner_pc

datatype event = Run nat | Ticker | CloseCh | Sweep

fun step :: "variant \<Rightarrow> event \<Rightarrow> config \<Rightarrow> config progress" where
  "step v (Run i) c =
     (if i < length (goroutines c)
      then case goroutine_step (goroutines c ! i) (shared c) of
             Steps (g, gl) \<Rightarrow> Steps (c\<lparr>shared := gl, goroutines := (goroutines c)[i := g]\<rparr>)
           | Disabled \<Rightarrow> Disabled
           | Crashes e \<Rightarrow> Crashes e
      else Disabled)"
| "step v Ticker c =
     (if cleaner c = Cleaner_select
      then Steps (c\<lparr>cleaner := Cleanup_Range (cleanKeys (shared c)) []\<rparr>)
      else Disabled)"
| "step v CloseCh c =
     (if cleaner c = Cleaner_select \<and> closeCh (shared c) = Closed
      then Steps (c\<lparr>cleaner := Cleaner_returned\<rparr>)
      else Disabled)"
| "step v Sweep c =
     (case sweep_step v (cleaner c) (shared c) of
        Steps (p, gl) \<Rightarrow> Steps (c\<lparr>shared := gl, cleaner := p\<rparr>)
      | Disabled \<Rightarrow> Disabled
      | Crashes e \<Rightarrow> Crashes e)"

fun exec :: "variant \<Rightarrow> event list \<Rightarrow> config \<Rightarrow> config progress" where
  "exec v [] c = Steps c"
| "exec v (e # es) c =
     (case step v e c of
        Steps c1 \<Rightarrow> exec v es c1
      | Disabled \<Rightarrow> Disabled
      | Crashes f \<Rightarrow> Crashes f)"

text \<open>The program after \<open>New\<close>: the goroutines have made no call yet, the cleaner waits.\<close>

definition program :: "call list list \<Rightarrow> config" where
  "program ps =
     \<lparr>shared = New [],
      goroutines = map (\<lambda>p. \<lparr>pc = Idle, todo = p, holding = []\<rparr>) ps,
      cleaner = Cleaner_select\<rparr>"

text \<open>The goroutines that are in the critical section of a key.\<close>

definition holders :: "key \<Rightarrow> config \<Rightarrow> nat list" where
  "holders k c = filter (\<lambda>i. k \<in> set (holding (goroutines c ! i))) [0..<length (goroutines c)]"

section \<open>Running calls and operations in sequence\<close>

text \<open>The calls of one goroutine, one after the other, with nothing in between.\<close>

fun do_call :: "call \<Rightarrow> GroupLock \<Rightarrow> GroupLock outcome" where
  "do_call (CallLock key) gl = Lock key gl"
| "do_call (CallUnlock key) gl = Unlock key gl"
| "do_call CallStop gl = Stop gl"

fun calls :: "call list \<Rightarrow> GroupLock \<Rightarrow> GroupLock outcome" where
  "calls [] gl = Returns gl"
| "calls (c # cs) gl =
     (case do_call c gl of
        Returns gl1 \<Rightarrow> calls cs gl1
      | Blocks gl1 \<Rightarrow> Blocks gl1
      | Fails e \<Rightarrow> Fails e)"

text \<open>The next \<open>n\<close> atomic operations of a call, and of a pass of the sweep.\<close>

fun steps :: "nat \<Rightarrow> pc \<Rightarrow> GroupLock \<Rightarrow> (pc \<times> GroupLock) progress" where
  "steps 0 p gl = Steps (p, gl)"
| "steps (Suc n) p gl =
     (case pc_step p gl of
        Steps (p1, gl1) \<Rightarrow> steps n p1 gl1
      | Disabled \<Rightarrow> Disabled
      | Crashes e \<Rightarrow> Crashes e)"

fun sweeps :: "variant \<Rightarrow> nat \<Rightarrow> cleaner_pc \<Rightarrow> GroupLock \<Rightarrow> (cleaner_pc \<times> GroupLock) progress" where
  "sweeps v 0 p gl = Steps (p, gl)"
| "sweeps v (Suc n) p gl =
     (case sweep_step v p gl of
        Steps (p1, gl1) \<Rightarrow> sweeps v n p1 gl1
      | Disabled \<Rightarrow> Disabled
      | Crashes e \<Rightarrow> Crashes e)"

text \<open>What a run of the program shows when it gets through.\<close>

definition observe :: "(config \<Rightarrow> 'a) \<Rightarrow> config progress \<Rightarrow> 'a option" where
  "observe f r = (case r of Steps c \<Rightarrow> Some (f c) | Disabled \<Rightarrow> None | Crashes e \<Rightarrow> None)"

definition entry :: "key \<Rightarrow> config \<Rightarrow> addr option" where
  "entry k c = locks (shared c) k"

definition pending :: "config \<Rightarrow> key list" where
  "pending c = cleanKeys (shared c)"

definition item :: "addr \<Rightarrow> config \<Rightarrow> lockItem" where
  "item a c = heap (shared c) a"

text \<open>The pointer a goroutine holds in \<open>lockData\<close>.\<close>

fun lockData :: "pc \<Rightarrow> addr option" where
  "lockData (Lock_AddInt32 key a) = Some a"
| "lockData (Lock_mutex_Lock key a) = Some a"
| "lockData (Unlock_mutex_Unlock key a) = Some a"
| "lockData (Unlock_AddInt32 key a) = Some a"
| "lockData _ = None"

section \<open>Predicates on states\<close>

text \<open>
  A key is idle when it has an entry whose count is at most 0, and held when it has an
  entry whose mutex is locked. \<open>swept ks\<close> drops the entries of the idle keys of \<open>ks\<close>.
\<close>

definition idle :: "GroupLock \<Rightarrow> key \<Rightarrow> bool" where
  "idle gl k = (case locks gl k of None \<Rightarrow> False | Some a \<Rightarrow> sint (count (heap gl a)) \<le> 0)"

definition held :: "GroupLock \<Rightarrow> key \<Rightarrow> bool" where
  "held gl k = (case locks gl k of None \<Rightarrow> False | Some a \<Rightarrow> mutex (heap gl a))"

definition swept :: "key list \<Rightarrow> GroupLock \<Rightarrow> GroupLock" where
  "swept ks gl = gl\<lparr>locks := (\<lambda>k. if k \<in> set ks \<and> idle gl k then None else locks gl k)\<rparr>"

text \<open>A pass of the sweep is under way.\<close>

fun in_pass :: "cleaner_pc \<Rightarrow> bool" where
  "in_pass Cleaner_select = False"
| "in_pass Cleaner_returned = False"
| "in_pass _ = True"

text \<open>The program counters of the two mutex operations of klocker's pass.\<close>

fun at_mutex :: "cleaner_pc \<Rightarrow> bool" where
  "at_mutex (Cleanup_mutex_Lock k a ks keysToRemove) = True"
| "at_mutex (Cleanup_mutex_Unlock a ks keysToRemove) = True"
| "at_mutex _ = False"

section \<open>Calls and passes run to their end\<close>

text \<open>
  A call run to its end with no other goroutine in between: the operations of its program
  counter, one after the other, until it returns, has to wait or fails. \<open>remaining\<close>
  bounds the operations a call has left.
\<close>

fun remaining :: "pc \<Rightarrow> nat" where
  "remaining Idle = 0"
| "remaining (Lock_LoadOrStore key) = 3"
| "remaining (Lock_AddInt32 key a) = 2"
| "remaining (Lock_mutex_Lock key a) = 1"
| "remaining (Unlock_Load key) = 4"
| "remaining (Unlock_mutex_Unlock key a) = 3"
| "remaining (Unlock_AddInt32 key a) = 2"
| "remaining (Unlock_Store key) = 1"
| "remaining Stop_close = 1"

function complete :: "pc \<Rightarrow> GroupLock \<Rightarrow> GroupLock outcome" where
  "complete p gl =
     (if p = Idle then Returns gl
      else case pc_step p gl of
             Steps (p1, gl1) \<Rightarrow> complete p1 gl1
           | Disabled \<Rightarrow> Blocks gl
           | Crashes e \<Rightarrow> Fails e)"
  by pat_completeness auto
termination
proof (relation "measure (\<lambda>(p, gl). remaining p)")
  show "wf (measure (\<lambda>(p, gl). remaining p))" by simp
next
  fix p gl x p1 gl1
  assume "p \<noteq> Idle" and "pc_step p gl = Steps x" and "(p1, gl1) = x"
  then have "pc_step p gl = Steps (p1, gl1)" by simp
  then have "remaining p1 < remaining p"
    by (cases p) (auto simp: Let_def split: prod.splits option.splits sum.splits if_splits)
  then show "((p1, gl1), (p, gl)) \<in> measure (\<lambda>(p, gl). remaining p)" by simp
qed

text \<open>The same for a pass of the sweep, from any of its program counters.\<close>

fun pass_remaining :: "cleaner_pc \<Rightarrow> nat" where
  "pass_remaining Cleaner_select = 0"
| "pass_remaining Cleaner_returned = 0"
| "pass_remaining (Cleanup_cleanKeys_Delete keysToRemove) = 1 + length keysToRemove"
| "pass_remaining (Cleanup_Range ks keysToRemove) = 2 + length keysToRemove + 7 * length ks"
| "pass_remaining (Cleanup_mutex_Unlock a ks keysToRemove) = 4 + length keysToRemove + 7 * length ks"
| "pass_remaining (Cleanup_Delete k a ks keysToRemove) = 6 + length keysToRemove + 7 * length ks"
| "pass_remaining (Cleanup_LoadInt32 k a ks keysToRemove) = 7 + length keysToRemove + 7 * length ks"
| "pass_remaining (Cleanup_mutex_Lock k a ks keysToRemove) = 8 + length keysToRemove + 7 * length ks"

function complete_pass :: "variant \<Rightarrow> cleaner_pc \<Rightarrow> GroupLock \<Rightarrow> GroupLock outcome" where
  "complete_pass v p gl =
     (if \<not> in_pass p then Returns gl
      else case sweep_step v p gl of
             Steps (p1, gl1) \<Rightarrow> complete_pass v p1 gl1
           | Disabled \<Rightarrow> Blocks gl
           | Crashes e \<Rightarrow> Fails e)"
  by pat_completeness auto
termination
proof (relation "measure (\<lambda>(v, p, gl). pass_remaining p)")
  show "wf (measure (\<lambda>(v, p, gl). pass_remaining p))" by simp
next
  fix v p gl x p1 gl1
  assume "\<not> \<not> in_pass p" and "sweep_step v p gl = Steps x" and "(p1, gl1) = x"
  then have s: "sweep_step v p gl = Steps (p1, gl1)" by simp
  have "pass_remaining p1 < pass_remaining p"
  proof (cases p)
    case (Cleanup_Range ks ktr)
    with s show ?thesis
      by (cases ks; cases v) (auto split: option.splits)
  next
    case (Cleanup_cleanKeys_Delete ktr)
    with s show ?thesis by (cases ktr) auto
  qed (use s in \<open>cases v; auto split: option.splits sum.splits if_splits\<close>)+
  then show "((v, p1, gl1), (v, p, gl)) \<in> measure (\<lambda>(v, p, gl). pass_remaining p)" by simp
qed

section \<open>The racing callers of one key\<close>

text \<open>
  A goroutine that is about to make its one call \<open>Lock key\<close>, and a goroutine of such a
  race later on: it has not started, or it holds the item \<open>a\<close> in \<open>lockData\<close>, or its
  call has returned.
\<close>

definition waiting :: "key \<Rightarrow> goroutine \<Rightarrow> bool" where
  "waiting key g = (pc g = Idle \<and> todo g = [CallLock key])"

definition racing :: "key \<Rightarrow> addr \<Rightarrow> goroutine \<Rightarrow> bool" where
  "racing key a g =
     (waiting key g \<or>
      todo g = [] \<and> (pc g = Lock_AddInt32 key a \<or> pc g = Lock_mutex_Lock key a \<or> pc g = Idle))"

text \<open>
  The keys whose entry a pass under way may still delete, and a key that is new: it has
  no entry, it is not pending, and no pass under way has it to visit.
\<close>

fun visits :: "cleaner_pc \<Rightarrow> key set" where
  "visits (Cleanup_Range ks keysToRemove) = set ks"
| "visits (Cleanup_mutex_Lock k a ks keysToRemove) = insert k (set ks)"
| "visits (Cleanup_LoadInt32 k a ks keysToRemove) = insert k (set ks)"
| "visits (Cleanup_Delete k a ks keysToRemove) = insert k (set ks)"
| "visits (Cleanup_mutex_Unlock a ks keysToRemove) = set ks"
| "visits _ = {}"

definition unseen :: "key \<Rightarrow> config \<Rightarrow> bool" where
  "unseen key c = (entry key c = None \<and> key \<notin> set (pending c) \<and> key \<notin> visits (cleaner c))"

text \<open>
  \<open>one_entry key c c1\<close>: from \<open>c\<close> to \<open>c1\<close> the entries of the other keys are as they
  were or have been swept, and either no caller has started and nothing was created, or
  exactly one item was allocated, it is the entry of \<open>key\<close>, and every caller that has
  started holds it. The key is still neither pending nor to be visited.
\<close>

definition one_entry :: "key \<Rightarrow> config \<Rightarrow> config \<Rightarrow> bool" where
  "one_entry key c c1 =
     ((\<forall>k. k \<noteq> key \<longrightarrow> entry k c1 = entry k c \<or> entry k c1 = None) \<and>
      key \<notin> set (pending c1) \<and> key \<notin> visits (cleaner c1) \<and>
      (entry key c1 = None \<and> nextAddr (shared c1) = nextAddr (shared c) \<and>
         (\<forall>g \<in> set (goroutines c1). waiting key g)
       \<or>
       entry key c1 = Some (nextAddr (shared c)) \<and>
         nextAddr (shared c1) = Suc (nextAddr (shared c)) \<and>
         (\<forall>g \<in> set (goroutines c1). racing key (nextAddr (shared c)) g)))"

section \<open>Callers that pair Lock with Unlock\<close>

text \<open>
  A goroutine uses the lock as meant when its calls are pairs \<open>Lock k; Unlock k\<close>. For
  such goroutines, when no pass of the sweep runs, every goroutine is in one of seven
  shapes (\<open>good\<close>), a mutex is locked exactly when one goroutine owns it (\<open>owns\<close>: it is in
  the critical section of the key of that item, or it is about to release the mutex),
  and the registry gives different keys different items (\<open>registry_ok\<close>). \<open>kept\<close> is what
  one operation of a goroutine preserves, and \<open>exclusive\<close> is the invariant.
\<close>

fun paired :: "call list \<Rightarrow> bool" where
  "paired [] = True"
| "paired (CallLock k # CallUnlock k' # cs) = (k = k' \<and> paired cs)"
| "paired _ = False"

definition owns :: "GroupLock \<Rightarrow> addr \<Rightarrow> goroutine \<Rightarrow> bool" where
  "owns gl a g =
     ((\<exists>k. holding g = [k] \<and> locks gl k = Some a) \<or> (\<exists>k. pc g = Unlock_mutex_Unlock k a))"

definition good :: "GroupLock \<Rightarrow> goroutine \<Rightarrow> bool" where
  "good gl g =
     (holding g = [] \<and> paired (todo g) \<and>
        (pc g = Idle \<or> (\<exists>k a. pc g = Unlock_AddInt32 k a) \<or> (\<exists>k. pc g = Unlock_Store k) \<or>
         (\<exists>k a. pc g = Unlock_mutex_Unlock k a \<and> locks gl k = Some a))
      \<or>
      (\<exists>k a. locks gl k = Some a \<and> paired (CallLock k # todo g) \<and>
         (holding g = [] \<and> (pc g = Lock_AddInt32 k a \<or> pc g = Lock_mutex_Lock k a) \<or>
          holding g = [k] \<and> pc g = Idle)))"

definition registry_ok :: "GroupLock \<Rightarrow> bool" where
  "registry_ok gl =
     ((\<forall>k k' a. locks gl k = Some a \<and> locks gl k' = Some a \<longrightarrow> k = k') \<and>
      (\<forall>k a. locks gl k = Some a \<longrightarrow> a < nextAddr gl) \<and>
      (\<forall>a. nextAddr gl \<le> a \<longrightarrow> \<not> mutex (heap gl a)))"

definition kept :: "GroupLock \<Rightarrow> goroutine \<Rightarrow> GroupLock \<Rightarrow> goroutine \<Rightarrow> bool" where
  "kept gl g gl1 g1 =
     (registry_ok gl1 \<and> good gl1 g1 \<and>
      (\<forall>g'. good gl g' \<longrightarrow> good gl1 g' \<and> (\<forall>b. owns gl1 b g' = owns gl b g')) \<and>
      (\<forall>b. (if owns gl1 b g1 then 1 else 0) + (if mutex (heap gl b) then 1 else 0) =
            (if owns gl b g then (1::nat) else 0) + (if mutex (heap gl1 b) then 1 else 0)))"

definition exclusive :: "config \<Rightarrow> bool" where
  "exclusive c =
     (\<not> in_pass (cleaner c) \<and> registry_ok (shared c) \<and>
      (\<forall>g \<in> set (goroutines c). good (shared c) g) \<and>
      (\<forall>a. length (filter (owns (shared c) a) (goroutines c)) =
            (if mutex (heap (shared c) a) then 1 else 0)))"

section \<open>Example states and schedules\<close>

text \<open>The state after \<open>Lock user1\<close>, and after \<open>Lock user1; Unlock user1\<close>, on a new handle.\<close>

definition locked :: GroupLock where
  "locked =
     \<lparr>heap = (\<lambda>_. \<lparr>mutex = False, count = 0\<rparr>)(0 := \<lparr>mutex = True, count = 1\<rparr>),
      nextAddr = 1, locks = [''user1'' \<mapsto> 0],
      cleanKeys = [], closeCh = Open, interval = defaultCleanInterval\<rparr>"

definition released :: GroupLock where
  "released =
     \<lparr>heap = (\<lambda>_. \<lparr>mutex = False, count = 0\<rparr>)(0 := \<lparr>mutex = False, count = 0\<rparr>),
      nextAddr = 1, locks = [''user1'' \<mapsto> 0],
      cleanKeys = [''user1''], closeCh = Open, interval = defaultCleanInterval\<rparr>"

text \<open>
  A state in which \<open>user1\<close> is pending and has no entry. It comes about when a pass of
  the sweep runs between the \<open>AddInt32\<close> and the \<open>cleanKeys.Store\<close> of an \<open>Unlock\<close>.
\<close>

definition orphaned :: GroupLock where
  "orphaned =
     \<lparr>heap = (\<lambda>_. \<lparr>mutex = False, count = 0\<rparr>)(0 := \<lparr>mutex = False, count = 0\<rparr>),
      nextAddr = 1, locks = Map.empty,
      cleanKeys = [''user1''], closeCh = Open, interval = defaultCleanInterval\<rparr>"

text \<open>
  The schedule of the race between \<open>Lock\<close> and the sweep, for three goroutines:
  goroutine 0 locks and unlocks the key (7 operations), goroutine 1 performs the
  \<open>LoadOrStore\<close> of its \<open>Lock\<close>, a tick starts a pass that runs to its end (6 operations
  in grouplock, 8 in klocker), goroutine 1 performs the \<open>AddInt32\<close> and the
  \<open>mutex.Lock\<close> of its \<open>Lock\<close>, and goroutine 2 performs its whole \<open>Lock\<close>.
\<close>

definition race :: "variant \<Rightarrow> event list" where
  "race v =
     replicate 7 (Run 0) @ [Run 1, Ticker] @
     replicate (case v of Grouplock \<Rightarrow> 6 | Klocker \<Rightarrow> 8) Sweep @
     [Run 1, Run 1] @ replicate 3 (Run 2)"

text \<open>
  The schedule of the race between first callers of a key and the sweep, for three
  goroutines: goroutine 1 performs the \<open>LoadOrStore\<close> of its \<open>Lock\<close>, which creates the
  entry; goroutine 0 locks and unlocks the key (7 operations); a tick starts a pass that
  runs to its end (6 operations in grouplock, 8 in klocker); goroutine 2 performs the
  \<open>LoadOrStore\<close> of its \<open>Lock\<close>.
\<close>

definition first_race :: "variant \<Rightarrow> event list" where
  "first_race v =
     [Run 1] @ replicate 7 (Run 0) @ [Ticker] @
     replicate (case v of Grouplock \<Rightarrow> 6 | Klocker \<Rightarrow> 8) Sweep @ [Run 2]"

section \<open>Facts about the operations\<close>

lemmas ops =
  program_def New_def holders_def goroutine_step_def LoadOrStore_def Load_def Delete_def
  AddInt32_def LoadInt32_def mutex_Lock_def mutex_Unlock_def cleanKeys_Store_def
  cleanKeys_Delete_def close_chan_def observe_def entry_def pending_def item_def

lemma lockItem_update:
  "(it :: lockItem)\<lparr>mutex := m, count := n\<rparr> = \<lparr>mutex = m, count = n\<rparr>"
  "(it :: lockItem)\<lparr>count := n, mutex := m\<rparr> = \<lparr>mutex = m, count = n\<rparr>"
  by (cases it, simp)+

lemma observeD: "observe f r = Some x \<Longrightarrow> \<exists>c. r = Steps c \<and> f c = x"
  by (auto simp: observe_def split: progress.splits)

lemma exec_append:
  "exec v (es @ fs) c =
     (case exec v es c of Steps c1 \<Rightarrow> exec v fs c1 | Disabled \<Rightarrow> Disabled | Crashes e \<Rightarrow> Crashes e)"
  by (induction es arbitrary: c) (auto split: progress.splits)

lemma exec_append_Steps: "exec v es c = Steps c1 \<Longrightarrow> exec v (es @ fs) c = exec v fs c1"
  by (simp add: exec_append)

lemma exec_snoc: "exec v es c = Steps c1 \<Longrightarrow> exec v (es @ [e]) c = step v e c1"
  by (simp add: exec_append split: progress.splits)

text \<open>The example states are states of the program.\<close>

lemma locked_reached: "calls [CallLock ''user1''] (New []) = Returns locked"
  by (simp add: locked_def New_def Lock_def LoadOrStore_def AddInt32_def mutex_Lock_def)

lemma released_reached:
  "calls [CallLock ''user1'', CallUnlock ''user1''] (New []) = Returns released"
  by (simp add: released_def New_def Lock_def LoadOrStore_def AddInt32_def mutex_Lock_def
      Unlock_def Load_def mutex_Unlock_def cleanKeys_Store_def)

lemma orphaned_reached:
  "observe shared
     (exec Grouplock (replicate 13 (Run 0) @ [Ticker] @ replicate 6 Sweep @ [Run 0])
        (program [[CallLock ''user1'', CallUnlock ''user1'', CallLock ''user1'',
                   CallUnlock ''user1'']]))
   = Some orphaned"
  by (simp add: orphaned_def ops numeral_eq_Suc)

subsection \<open>A pass of the sweep as a whole\<close>

lemma idle_Delete: "idle (Delete k gl) k' = (k' \<noteq> k \<and> idle gl k')"
  by (simp add: idle_def Delete_def split: option.splits)

lemma held_Delete: "held (Delete k gl) k' = (k' \<noteq> k \<and> held gl k')"
  by (simp add: held_def Delete_def split: option.splits)

lemma swept_Nil: "swept [] gl = gl"
  by (simp add: swept_def)

lemma swept_Cons_busy: "\<not> idle gl k \<Longrightarrow> swept (k # ks) gl = swept ks gl"
proof -
  assume "\<not> idle gl k"
  then have "(\<lambda>k'. if k' \<in> set (k # ks) \<and> idle gl k' then None else locks gl k') =
      (\<lambda>k'. if k' \<in> set ks \<and> idle gl k' then None else locks gl k')"
    by (auto simp: fun_eq_iff)
  then show ?thesis by (simp add: swept_def)
qed

lemma swept_Cons_absent: "locks gl k = None \<Longrightarrow> swept (k # ks) gl = swept ks gl"
  by (rule swept_Cons_busy) (simp add: idle_def)

lemma swept_Cons_idle: "idle gl k \<Longrightarrow> swept (k # ks) gl = swept ks (Delete k gl)"
  by (auto simp: swept_def idle_Delete Delete_def idle_def fun_eq_iff split: option.splits)

lemma cleanup_range_eq:
  "cleanup_range ks gl ktr = (gl1, ktr1) \<Longrightarrow>
     gl1 = swept ks gl \<and> set ktr1 = set ktr \<union> {k \<in> set ks. idle gl k}"
proof (induction ks arbitrary: gl ktr)
  case Nil
  then show ?case by (simp add: swept_Nil)
next
  case (Cons k ks)
  show ?case
  proof (cases "locks gl k")
    case None
    then have "\<not> idle gl k" by (simp add: idle_def)
    with Cons None show ?thesis by (auto simp: Load_def swept_Cons_absent)
  next
    case (Some a)
    show ?thesis
    proof (cases "idle gl k")
      case True
      with Some Cons.prems have "cleanup_range ks (Delete k gl) (ktr @ [k]) = (gl1, ktr1)"
        by (simp add: Load_def LoadInt32_def idle_def)
      from Cons.IH [OF this] True show ?thesis
        by (auto simp: swept_Cons_idle idle_Delete)
    next
      case False
      with Some Cons.prems have "cleanup_range ks gl ktr = (gl1, ktr1)"
        by (simp add: Load_def LoadInt32_def idle_def)
      from Cons.IH [OF this] False show ?thesis
        by (auto simp: swept_Cons_busy)
    qed
  qed
qed

lemma fold_cleanKeys_Delete:
  "fold cleanKeys_Delete ktr gl = gl\<lparr>cleanKeys := filter (\<lambda>k. k \<notin> set ktr) (cleanKeys gl)\<rparr>"
proof (induction ktr arbitrary: gl)
  case Nil
  then show ?case by simp
next
  case (Cons k ktr)
  have "fold cleanKeys_Delete (k # ktr) gl = fold cleanKeys_Delete ktr (cleanKeys_Delete k gl)"
    by simp
  also have "\<dots> = (cleanKeys_Delete k gl)\<lparr>cleanKeys :=
      filter (\<lambda>k'. k' \<notin> set ktr) (cleanKeys (cleanKeys_Delete k gl))\<rparr>"
    by (rule Cons.IH)
  also have "\<dots> = gl\<lparr>cleanKeys := filter (\<lambda>k'. k' \<notin> set (k # ktr)) (cleanKeys gl)\<rparr>"
    by (simp add: cleanKeys_Delete_def removeAll_filter_not_eq conj_commute eq_commute)
  finally show ?case .
qed

lemma cleanup_eq:
  "cleanup gl = gl\<lparr>locks := (\<lambda>k. if k \<in> set (cleanKeys gl) \<and> idle gl k then None else locks gl k),
                  cleanKeys := filter (\<lambda>k. \<not> idle gl k) (cleanKeys gl)\<rparr>"
proof -
  obtain gl1 ktr1 where r: "cleanup_range (cleanKeys gl) gl [] = (gl1, ktr1)"
    by (cases "cleanup_range (cleanKeys gl) gl []") 
  from cleanup_range_eq [OF r] have g: "gl1 = swept (cleanKeys gl) gl"
    and s: "set ktr1 = {k \<in> set (cleanKeys gl). idle gl k}" by auto
  have "filter (\<lambda>k. k \<notin> set ktr1) (cleanKeys gl) = filter (\<lambda>k. \<not> idle gl k) (cleanKeys gl)"
    by (rule filter_cong) (auto simp: s)
  then show ?thesis
    by (simp add: cleanup_def r fold_cleanKeys_Delete g swept_def)
qed

lemma mutex_Lock_Unlock:
  "mutex_Lock a gl = Some gl1 \<Longrightarrow> mutex_Unlock a gl1 = Inr gl"
  by (auto simp: mutex_Lock_def mutex_Unlock_def fun_upd_idem split: if_splits)

lemma mutex_Lock_Delete_Unlock:
  "mutex_Lock a gl = Some gl1 \<Longrightarrow> mutex_Unlock a (Delete k gl1) = Inr (Delete k gl)"
  by (auto simp: mutex_Lock_def mutex_Unlock_def Delete_def fun_upd_idem split: if_splits)

lemma klocker_range_eq:
  "klocker_range ks gl ktr =
     (if \<exists>k \<in> set ks. held gl k
      then Blocks (swept (takeWhile (\<lambda>k. \<not> held gl k) ks) gl)
      else Returns (cleanup_range ks gl ktr))"
proof (induction ks arbitrary: gl ktr)
  case Nil
  then show ?case by simp
next
  case (Cons k ks)
  show ?case
  proof (cases "locks gl k")
    case None
    then have "\<not> held gl k" by (simp add: held_def)
    with None show ?thesis by (simp add: Load_def Cons.IH swept_Cons_absent)
  next
    case (Some a)
    show ?thesis
    proof (cases "mutex (heap gl a)")
      case True
      with Some have "held gl k" by (simp add: held_def)
      with Some True show ?thesis by (simp add: Load_def mutex_Lock_def swept_Nil)
    next
      case False
      with Some have nh: "\<not> held gl k" by (simp add: held_def)
      from False obtain gl1 where l: "mutex_Lock a gl = Some gl1"
        by (simp add: mutex_Lock_def)
      have c: "LoadInt32 a gl1 = LoadInt32 a gl"
        using l by (auto simp: mutex_Lock_def LoadInt32_def split: if_splits)
      show ?thesis
      proof (cases "idle gl k")
        case True
        have h: "\<And>k'. k' \<in> set ks \<Longrightarrow> held (Delete k gl) k' = held gl k'"
          using nh by (auto simp: held_Delete)
        have t: "takeWhile (\<lambda>k'. \<not> held (Delete k gl) k') ks = takeWhile (\<lambda>k'. \<not> held gl k') ks"
          by (rule takeWhile_cong) (auto simp: h)
        have e: "(\<exists>k' \<in> set ks. held (Delete k gl) k') = (\<exists>k' \<in> set ks. held gl k')"
          using h by auto
        from True Some have i: "sint (LoadInt32 a gl) \<le> 0"
          by (simp add: idle_def LoadInt32_def)
        show ?thesis
          using Some l c nh i True
          by (simp add: Load_def mutex_Lock_Delete_Unlock Cons.IH t e swept_Cons_idle)
      next
        case False
        with Some have i: "\<not> sint (LoadInt32 a gl) \<le> 0"
          by (simp add: idle_def LoadInt32_def)
        show ?thesis
          using Some l c nh i False
          by (simp add: Load_def mutex_Lock_Unlock Cons.IH swept_Cons_busy)
      qed
    qed
  qed
qed

lemma klocker_cleanup_eq:
  "klocker_cleanup gl =
     (if \<exists>k \<in> set (cleanKeys gl). held gl k
      then Blocks (swept (takeWhile (\<lambda>k. \<not> held gl k) (cleanKeys gl)) gl)
      else Returns (cleanup gl))"
  by (simp add: klocker_cleanup_def klocker_range_eq cleanup_def split: prod.splits)

subsection \<open>The calls and the pass are their atomic operations in sequence\<close>

lemma complete_Lock: "complete (Lock_LoadOrStore key) gl = Lock key gl"
  by (simp add: Lock_def Let_def split: prod.splits option.splits)

lemma complete_Unlock: "complete (Unlock_Load key) gl = Unlock key gl"
  by (simp add: Unlock_def Let_def split: prod.splits option.splits sum.splits)

lemma complete_Stop: "complete Stop_close gl = Stop gl"
  by (simp add: Stop_def split: sum.splits)

lemma complete_call: "complete (start c) gl = do_call c gl"
  by (cases c) (simp_all only: start.simps do_call.simps complete_Lock complete_Unlock complete_Stop)

declare complete_pass.simps [simp del]

lemma complete_pass_done: "\<not> in_pass p \<Longrightarrow> complete_pass v p gl = Returns gl"
  by (subst complete_pass.simps) simp

lemma complete_pass_step:
  "sweep_step v p gl = Steps (p1, gl1) \<Longrightarrow> complete_pass v p gl = complete_pass v p1 gl1"
  by (subst complete_pass.simps) (cases p; simp)

lemma complete_pass_blocked:
  "in_pass p \<Longrightarrow> sweep_step v p gl = Disabled \<Longrightarrow> complete_pass v p gl = Blocks gl"
  by (subst complete_pass.simps) simp

lemma complete_pass_Delete:
  "complete_pass v (Cleanup_cleanKeys_Delete ktr) gl = Returns (fold cleanKeys_Delete ktr gl)"
proof (induction ktr arbitrary: gl)
  case Nil
  have "complete_pass v (Cleanup_cleanKeys_Delete []) gl = complete_pass v Cleaner_select gl"
    by (rule complete_pass_step) simp
  then show ?case by (simp add: complete_pass_done)
next
  case (Cons k ktr)
  have "complete_pass v (Cleanup_cleanKeys_Delete (k # ktr)) gl =
      complete_pass v (Cleanup_cleanKeys_Delete ktr) (cleanKeys_Delete k gl)"
    by (rule complete_pass_step) simp
  then show ?case by (simp add: Cons.IH)
qed

lemma complete_pass_Grouplock:
  "complete_pass Grouplock (Cleanup_Range ks ktr) gl =
     (case cleanup_range ks gl ktr of (gl1, ktr1) \<Rightarrow> Returns (fold cleanKeys_Delete ktr1 gl1))"
proof (induction ks arbitrary: gl ktr)
  case Nil
  have "complete_pass Grouplock (Cleanup_Range [] ktr) gl =
      complete_pass Grouplock (Cleanup_cleanKeys_Delete ktr) gl"
    by (rule complete_pass_step) simp
  then show ?case by (simp add: complete_pass_Delete)
next
  case (Cons k ks)
  show ?case
  proof (cases "Load k gl")
    case None
    then have "complete_pass Grouplock (Cleanup_Range (k # ks) ktr) gl =
        complete_pass Grouplock (Cleanup_Range ks ktr) gl"
      by (intro complete_pass_step) simp
    with None show ?thesis by (simp add: Cons.IH)
  next
    case (Some a)
    then have 1: "complete_pass Grouplock (Cleanup_Range (k # ks) ktr) gl =
        complete_pass Grouplock (Cleanup_LoadInt32 k a ks ktr) gl"
      by (intro complete_pass_step) simp
    show ?thesis
    proof (cases "sint (LoadInt32 a gl) \<le> 0")
      case True
      then have 2: "complete_pass Grouplock (Cleanup_LoadInt32 k a ks ktr) gl =
          complete_pass Grouplock (Cleanup_Delete k a ks ktr) gl"
        by (intro complete_pass_step) simp
      have 3: "complete_pass Grouplock (Cleanup_Delete k a ks ktr) gl =
          complete_pass Grouplock (Cleanup_Range ks (ktr @ [k])) (Delete k gl)"
        by (intro complete_pass_step) simp
      from Some True show ?thesis by (simp add: 1 2 3 Cons.IH)
    next
      case False
      then have 2: "complete_pass Grouplock (Cleanup_LoadInt32 k a ks ktr) gl =
          complete_pass Grouplock (Cleanup_Range ks ktr) gl"
        by (intro complete_pass_step) simp
      from Some False show ?thesis by (simp add: 1 2 Cons.IH)
    qed
  qed
qed

lemma complete_pass_Klocker:
  "complete_pass Klocker (Cleanup_Range ks ktr) gl =
     (case klocker_range ks gl ktr of
        Returns (gl1, ktr1) \<Rightarrow> Returns (fold cleanKeys_Delete ktr1 gl1)
      | Blocks gl1 \<Rightarrow> Blocks gl1
      | Fails e \<Rightarrow> Fails e)"
proof (induction ks arbitrary: gl ktr)
  case Nil
  have "complete_pass Klocker (Cleanup_Range [] ktr) gl =
      complete_pass Klocker (Cleanup_cleanKeys_Delete ktr) gl"
    by (rule complete_pass_step) simp
  then show ?case by (simp add: complete_pass_Delete)
next
  case (Cons k ks)
  show ?case
  proof (cases "Load k gl")
    case None
    then have "complete_pass Klocker (Cleanup_Range (k # ks) ktr) gl =
        complete_pass Klocker (Cleanup_Range ks ktr) gl"
      by (intro complete_pass_step) simp
    with None show ?thesis by (simp add: Cons.IH)
  next
    case (Some a)
    then have 1: "complete_pass Klocker (Cleanup_Range (k # ks) ktr) gl =
        complete_pass Klocker (Cleanup_mutex_Lock k a ks ktr) gl"
      by (intro complete_pass_step) simp
    show ?thesis
    proof (cases "mutex_Lock a gl")
      case None
      then have "complete_pass Klocker (Cleanup_mutex_Lock k a ks ktr) gl = Blocks gl"
        by (intro complete_pass_blocked) simp_all
      with Some None 1 show ?thesis by simp
    next
      case (Some gl1)
      note l = this
      then have 2: "complete_pass Klocker (Cleanup_mutex_Lock k a ks ktr) gl =
          complete_pass Klocker (Cleanup_LoadInt32 k a ks ktr) gl1"
        by (intro complete_pass_step) simp
      show ?thesis
      proof (cases "sint (LoadInt32 a gl1) \<le> 0")
        case True
        then have 3: "complete_pass Klocker (Cleanup_LoadInt32 k a ks ktr) gl1 =
            complete_pass Klocker (Cleanup_Delete k a ks ktr) gl1"
          by (intro complete_pass_step) simp
        have 4: "complete_pass Klocker (Cleanup_Delete k a ks ktr) gl1 =
            complete_pass Klocker (Cleanup_mutex_Unlock a ks (ktr @ [k])) (Delete k gl1)"
          by (intro complete_pass_step) simp
        have 5: "complete_pass Klocker (Cleanup_mutex_Unlock a ks (ktr @ [k])) (Delete k gl1) =
            complete_pass Klocker (Cleanup_Range ks (ktr @ [k])) (Delete k gl)"
          by (intro complete_pass_step) (simp add: mutex_Lock_Delete_Unlock [OF l])
        from \<open>Load k gl = Some a\<close> l True show ?thesis
          by (simp add: 1 2 3 4 5 Cons.IH mutex_Lock_Delete_Unlock [OF l])
      next
        case False
        then have 3: "complete_pass Klocker (Cleanup_LoadInt32 k a ks ktr) gl1 =
            complete_pass Klocker (Cleanup_mutex_Unlock a ks ktr) gl1"
          by (intro complete_pass_step) simp
        have 4: "complete_pass Klocker (Cleanup_mutex_Unlock a ks ktr) gl1 =
            complete_pass Klocker (Cleanup_Range ks ktr) gl"
          by (intro complete_pass_step) (simp add: mutex_Lock_Unlock [OF l])
        from \<open>Load k gl = Some a\<close> l False show ?thesis
          by (simp add: 1 2 3 4 Cons.IH mutex_Lock_Unlock [OF l])
      qed
    qed
  qed
qed

lemma complete_pass_cleanup:
  "complete_pass Grouplock (Cleanup_Range (cleanKeys gl) []) gl = Returns (cleanup gl)"
  by (simp add: complete_pass_Grouplock cleanup_def split: prod.splits)

lemma complete_pass_klocker_cleanup:
  "complete_pass Klocker (Cleanup_Range (cleanKeys gl) []) gl = klocker_cleanup gl"
  by (simp add: complete_pass_Klocker klocker_cleanup_def)

subsection \<open>Steps of the program\<close>

lemma pc_step_locks:
  "pc_step p gl = Steps (p1, gl1) \<Longrightarrow> locks gl k = Some a \<Longrightarrow> locks gl1 k = Some a"
  by (cases p)
     (auto simp: LoadOrStore_def Load_def AddInt32_def mutex_Lock_def mutex_Unlock_def
        cleanKeys_Store_def close_chan_def Let_def
        split: option.splits sum.splits if_splits chan.splits)

lemma goroutine_step_locks:
  "goroutine_step g gl = Steps (g1, gl1) \<Longrightarrow> locks gl k = Some a \<Longrightarrow> locks gl1 k = Some a"
  by (auto simp: goroutine_step_def split: option.splits progress.splits dest: pc_step_locks)

lemma step_returned:
  "step v e c = Steps c1 \<Longrightarrow> cleaner c = Cleaner_returned \<Longrightarrow>
     cleaner c1 = Cleaner_returned \<and> (\<forall>k a. entry k c = Some a \<longrightarrow> entry k c1 = Some a)"
  by (cases e)
     (auto simp: entry_def split: if_splits progress.splits dest: goroutine_step_locks)

lemma exec_returned:
  "exec v es c = Steps c1 \<Longrightarrow> cleaner c = Cleaner_returned \<Longrightarrow>
     cleaner c1 = Cleaner_returned \<and> (\<forall>k a. entry k c = Some a \<longrightarrow> entry k c1 = Some a)"
proof (induction es arbitrary: c)
  case Nil
  then show ?case by simp
next
  case (Cons e es)
  from Cons.prems(1) obtain c2 where s: "step v e c = Steps c2" and r: "exec v es c2 = Steps c1"
    by (auto split: progress.splits)
  from step_returned [OF s Cons.prems(2)] Cons.IH [OF r] show ?case
    by blast
qed

lemma sweep_step_Disabled_iff:
  "sweep_step v p gl = Disabled \<longleftrightarrow>
     \<not> in_pass p \<or> (\<exists>k a ks ktr. p = Cleanup_mutex_Lock k a ks ktr \<and> mutex (heap gl a))"
proof (cases p)
  case (Cleanup_Range ks ktr)
  then show ?thesis by (cases ks) (auto split: option.splits)
next
  case (Cleanup_cleanKeys_Delete ktr)
  then show ?thesis by (cases ktr) auto
qed (auto simp: mutex_Lock_def mutex_Unlock_def split: option.splits sum.splits if_splits)

lemma sweep_step_Crashes:
  "sweep_step v p gl = Crashes e \<Longrightarrow> at_mutex p"
proof (cases p)
  case (Cleanup_Range ks ktr)
  assume "sweep_step v p gl = Crashes e"
  with Cleanup_Range show ?thesis by (cases ks) (auto split: option.splits)
next
  case (Cleanup_cleanKeys_Delete ktr)
  assume "sweep_step v p gl = Crashes e"
  with Cleanup_cleanKeys_Delete show ?thesis by (cases ktr) auto
qed (auto split: option.splits if_splits)

lemma sweep_step_Grouplock_pc:
  "sweep_step Grouplock p gl = Steps (p1, gl1) \<Longrightarrow> \<not> at_mutex p \<Longrightarrow> \<not> at_mutex p1"
proof (cases p)
  case (Cleanup_Range ks ktr)
  assume "sweep_step Grouplock p gl = Steps (p1, gl1)"
  with Cleanup_Range show ?thesis by (cases ks) (auto split: option.splits)
next
  case (Cleanup_cleanKeys_Delete ktr)
  assume "sweep_step Grouplock p gl = Steps (p1, gl1)"
  with Cleanup_cleanKeys_Delete show ?thesis by (cases ktr) auto
qed (auto split: if_splits)

lemma step_Grouplock_pc:
  "step Grouplock e c = Steps c1 \<Longrightarrow> \<not> at_mutex (cleaner c) \<Longrightarrow> \<not> at_mutex (cleaner c1)"
  by (cases e) (auto split: if_splits progress.splits dest: sweep_step_Grouplock_pc)

lemma exec_Grouplock_pc:
  "exec Grouplock es c = Steps c1 \<Longrightarrow> \<not> at_mutex (cleaner c) \<Longrightarrow> \<not> at_mutex (cleaner c1)"
proof (induction es arbitrary: c)
  case Nil
  then show ?case by simp
next
  case (Cons e es)
  from Cons.prems(1) obtain c2 where s: "step Grouplock e c = Steps c2"
    and r: "exec Grouplock es c2 = Steps c1"
    by (auto split: progress.splits)
  from step_Grouplock_pc [OF s Cons.prems(2)] Cons.IH [OF r] show ?case
    by blast
qed

lemma pc_step_closeCh:
  "p \<noteq> Stop_close \<Longrightarrow>
     pc_step p (gl\<lparr>closeCh := ch\<rparr>) =
       (case pc_step p gl of
          Steps (p1, gl1) \<Rightarrow> Steps (p1, gl1\<lparr>closeCh := ch\<rparr>)
        | Disabled \<Rightarrow> Disabled
        | Crashes e \<Rightarrow> Crashes e)"
  by (cases p)
     (auto simp: LoadOrStore_def Load_def AddInt32_def mutex_Lock_def mutex_Unlock_def
        cleanKeys_Store_def Let_def split: option.splits)

subsection \<open>Steps of racing callers\<close>

lemma goroutine_step_waiting:
  assumes "waiting key g" and "goroutine_step g gl = Steps (g1, gl1)"
  shows "(\<forall>k. k \<noteq> key \<longrightarrow> locks gl1 k = locks gl k) \<and>
         (case locks gl key of
            None \<Rightarrow> locks gl1 key = Some (nextAddr gl) \<and> nextAddr gl1 = Suc (nextAddr gl) \<and>
                     pc g1 = Lock_AddInt32 key (nextAddr gl) \<and> todo g1 = []
          | Some a \<Rightarrow> locks gl1 = locks gl \<and> nextAddr gl1 = nextAddr gl \<and>
                     pc g1 = Lock_AddInt32 key a \<and> todo g1 = [])"
  using assms
  by (auto simp: waiting_def goroutine_step_def LoadOrStore_def Let_def split: option.splits)

lemma goroutine_step_racing:
  assumes "racing key a g" and "\<not> waiting key g" and "goroutine_step g gl = Steps (g1, gl1)"
  shows "locks gl1 = locks gl \<and> nextAddr gl1 = nextAddr gl \<and> racing key a g1"
  using assms
  by (auto simp: racing_def waiting_def goroutine_step_def AddInt32_def mutex_Lock_def Let_def
      split: option.splits if_splits)

lemma set_update_all:
  "\<forall>g \<in> set gs. P g \<Longrightarrow> P g1 \<Longrightarrow> \<forall>g \<in> set (gs[i := g1]). P g"
  by (metis insert_iff set_update_subset_insert subsetD)

lemma goroutine_step_waiting_pending:
  assumes "waiting key g" and "goroutine_step g gl = Steps (g1, gl1)"
  shows "cleanKeys gl1 = cleanKeys gl"
  using assms
  by (auto simp: waiting_def goroutine_step_def LoadOrStore_def Let_def split: option.splits)

lemma goroutine_step_racing_pending:
  assumes "racing key a g" and "\<not> waiting key g" and "goroutine_step g gl = Steps (g1, gl1)"
  shows "cleanKeys gl1 = cleanKeys gl"
  using assms
  by (auto simp: racing_def waiting_def goroutine_step_def AddInt32_def mutex_Lock_def Let_def
      split: option.splits if_splits)

lemma sweep_step_unseen:
  assumes "sweep_step v p gl = Steps (p1, gl1)" and "key \<notin> visits p"
  shows "locks gl1 key = locks gl key \<and> nextAddr gl1 = nextAddr gl \<and> key \<notin> visits p1 \<and>
         set (cleanKeys gl1) \<subseteq> set (cleanKeys gl) \<and>
         (\<forall>k. locks gl1 k = locks gl k \<or> locks gl1 k = None)"
proof (cases p)
  case (Cleanup_Range ks ktr)
  with assms show ?thesis
    by (cases ks; cases v) (auto split: option.splits)
next
  case (Cleanup_cleanKeys_Delete ktr)
  with assms show ?thesis
    by (cases ktr) (auto simp: cleanKeys_Delete_def)
next
  case (Cleanup_mutex_Lock k a ks ktr)
  with assms show ?thesis
    by (auto simp: mutex_Lock_def split: if_splits)
next
  case (Cleanup_LoadInt32 k a ks ktr)
  with assms show ?thesis
    by (cases v) (auto split: if_splits)
next
  case (Cleanup_Delete k a ks ktr)
  with assms show ?thesis
    by (cases v) (auto simp: Delete_def split: if_splits)
next
  case (Cleanup_mutex_Unlock a ks ktr)
  with assms show ?thesis
    by (auto simp: mutex_Unlock_def split: if_splits)
qed (use assms in auto)


lemma step_one_entry:
  assumes "one_entry key c c1" and "step v e c1 = Steps c2"
  shows "one_entry key c c2"
proof (cases e)
  case (Run i)
  let ?g = "goroutines c1 ! i"
  from assms(2) Run obtain g1 gl1 where i: "i < length (goroutines c1)"
    and s: "goroutine_step ?g (shared c1) = Steps (g1, gl1)"
    and c2: "c2 = c1\<lparr>shared := gl1, goroutines := (goroutines c1)[i := g1]\<rparr>"
    by (auto split: if_splits progress.splits)
  from i have m: "?g \<in> set (goroutines c1)" by simp
  let ?a = "nextAddr (shared c)"
  from assms(1) have o: "\<forall>k. k \<noteq> key \<longrightarrow> entry k c1 = entry k c \<or> entry k c1 = None"
    and u: "key \<notin> set (pending c1)" "key \<notin> visits (cleaner c1)"
    by (simp_all add: one_entry_def)
  from assms(1) consider
      (fresh) "entry key c1 = None" "nextAddr (shared c1) = ?a"
        "\<forall>g \<in> set (goroutines c1). waiting key g"
    | (made) "entry key c1 = Some ?a" "nextAddr (shared c1) = Suc ?a"
        "\<forall>g \<in> set (goroutines c1). racing key ?a g"
    by (auto simp: one_entry_def)
  then show ?thesis
  proof cases
    case fresh
    from fresh(3) m have w: "waiting key ?g" by blast
    from goroutine_step_waiting [OF w s] fresh(1,2)
    have l: "\<forall>k. k \<noteq> key \<longrightarrow> locks gl1 k = locks (shared c1) k"
      and e: "locks gl1 key = Some ?a" and n: "nextAddr gl1 = Suc ?a"
      and r: "racing key ?a g1"
      by (auto simp: entry_def racing_def)
    from fresh(3) have "\<forall>g \<in> set (goroutines c1). racing key ?a g"
      by (simp add: racing_def)
    from set_update_all [OF this r] have "\<forall>g \<in> set ((goroutines c1)[i := g1]). racing key ?a g" .
    with o l e n u goroutine_step_waiting_pending [OF w s] show ?thesis
      by (simp add: one_entry_def c2 entry_def pending_def)
  next
    case made
    from made(3) m have r: "racing key ?a ?g" by blast
    have "locks gl1 = locks (shared c1) \<and> nextAddr gl1 = nextAddr (shared c1) \<and>
        racing key ?a g1 \<and> cleanKeys gl1 = cleanKeys (shared c1)"
    proof (cases "waiting key ?g")
      case True
      from goroutine_step_waiting [OF True s] goroutine_step_waiting_pending [OF True s] made(1)
      show ?thesis
        by (auto simp: entry_def racing_def)
    next
      case False
      from goroutine_step_racing [OF r False s] goroutine_step_racing_pending [OF r False s]
      show ?thesis by simp
    qed
    then have l: "locks gl1 = locks (shared c1)" and n: "nextAddr gl1 = nextAddr (shared c1)"
      and r1: "racing key ?a g1" and p: "cleanKeys gl1 = cleanKeys (shared c1)" by auto
    from set_update_all [OF made(3) r1]
    have "\<forall>g \<in> set ((goroutines c1)[i := g1]). racing key ?a g" .
    with o l n p u made(1,2) show ?thesis
      by (simp add: one_entry_def c2 entry_def pending_def)
  qed
next
  case Ticker
  with assms show ?thesis
    by (auto simp: one_entry_def entry_def pending_def split: if_splits)
next
  case CloseCh
  with assms show ?thesis
    by (auto simp: one_entry_def entry_def pending_def split: if_splits)
next
  case Sweep
  with assms(2) obtain p1 gl1 where s: "sweep_step v (cleaner c1) (shared c1) = Steps (p1, gl1)"
    and c2: "c2 = c1\<lparr>shared := gl1, cleaner := p1\<rparr>"
    by (auto split: progress.splits)
  from assms(1) have u: "key \<notin> visits (cleaner c1)"
    by (simp add: one_entry_def)
  from sweep_step_unseen [OF s u] assms(1) show ?thesis
    unfolding one_entry_def c2 entry_def pending_def
    by (simp, metis subsetD)
qed

lemma exec_one_entry:
  assumes "one_entry key c c1" and "exec v es c1 = Steps c2"
  shows "one_entry key c c2"
  using assms
proof (induction es arbitrary: c1)
  case Nil
  then show ?case by simp
next
  case (Cons e es)
  from Cons.prems(2) obtain c3 where s: "step v e c1 = Steps c3" and r: "exec v es c3 = Steps c2"
    by (auto split: progress.splits)
  from step_one_entry [OF Cons.prems(1) s] have "one_entry key c c3" .
  from Cons.IH [OF this r] show ?case .
qed

subsection \<open>Steps of callers that pair Lock with Unlock\<close>

lemma paired_Lock:
  assumes "paired (CallLock k # cs)"
  shows "\<exists>ds. cs = CallUnlock k # ds \<and> paired ds"
proof (cases cs)
  case Nil
  with assms show ?thesis by simp
next
  case (Cons d ds)
  with assms show ?thesis by (cases d) simp_all
qed

lemma paired_cases:
  assumes "paired cs"
  shows "cs = [] \<or> (\<exists>k ds. cs = CallLock k # CallUnlock k # ds \<and> paired ds)"
proof (cases cs)
  case Nil
  then show ?thesis by simp
next
  case (Cons c ds)
  with assms paired_Lock show ?thesis by (cases c) auto
qed

lemma step_call_Lock:
  assumes "pc g = Idle" and "todo g = CallLock k # cs"
  shows "goroutine_step g gl =
     Steps (g\<lparr>pc := Lock_AddInt32 k (fst (LoadOrStore k gl)), todo := cs\<rparr>, snd (LoadOrStore k gl))"
  using assms by (simp add: goroutine_step_def split: prod.splits)

lemma step_call_Unlock:
  assumes "pc g = Idle" and "todo g = CallUnlock k # cs" and "locks gl k = Some a"
  shows "goroutine_step g gl =
     Steps (g\<lparr>pc := Unlock_mutex_Unlock k a, todo := cs, holding := removeAll k (holding g)\<rparr>, gl)"
  using assms by (simp add: goroutine_step_def Load_def)

lemma step_Lock_AddInt32:
  assumes "pc g = Lock_AddInt32 k a"
  shows "goroutine_step g gl =
     Steps (g\<lparr>pc := Lock_mutex_Lock k a\<rparr>, snd (AddInt32 a 1 gl))"
  using assms by (simp add: goroutine_step_def split: prod.splits)

lemma step_Lock_mutex_Lock:
  assumes "pc g = Lock_mutex_Lock k a"
  shows "goroutine_step g gl =
     (if mutex (heap gl a) then Disabled
      else Steps (g\<lparr>pc := Idle, holding := holding g @ [k]\<rparr>,
                  gl\<lparr>heap := (heap gl)(a := (heap gl a)\<lparr>mutex := True\<rparr>)\<rparr>))"
  using assms by (simp add: goroutine_step_def mutex_Lock_def)

lemma step_Unlock_mutex_Unlock:
  assumes "pc g = Unlock_mutex_Unlock k a"
  shows "goroutine_step g gl =
     (if mutex (heap gl a)
      then Steps (g\<lparr>pc := Unlock_AddInt32 k a\<rparr>,
                  gl\<lparr>heap := (heap gl)(a := (heap gl a)\<lparr>mutex := False\<rparr>)\<rparr>)
      else Crashes Fatal_unlock_of_unlocked_mutex)"
  using assms by (simp add: goroutine_step_def mutex_Unlock_def)

lemma step_Unlock_AddInt32:
  assumes "pc g = Unlock_AddInt32 k a"
  shows "goroutine_step g gl =
     Steps (g\<lparr>pc := (if sint (fst (AddInt32 a (- 1) gl)) \<le> 0 then Unlock_Store k else Idle)\<rparr>,
            snd (AddInt32 a (- 1) gl))"
  using assms by (simp add: goroutine_step_def split: prod.splits)

lemma step_Unlock_Store:
  assumes "pc g = Unlock_Store k"
  shows "goroutine_step g gl = Steps (g\<lparr>pc := Idle\<rparr>, cleanKeys_Store k gl)"
  using assms by (simp add: goroutine_step_def)


lemma good_cong: "locks gl1 = locks gl \<Longrightarrow> good gl1 g = good gl g"
  by (simp add: good_def)

lemma owns_cong: "locks gl1 = locks gl \<Longrightarrow> owns gl1 b g = owns gl b g"
  by (simp add: owns_def)

lemma good_shapes:
  assumes "good gl g"
  shows "(holding g = [] \<and> paired (todo g) \<and> pc g = Idle) \<or>
         (\<exists>k a. holding g = [] \<and> paired (todo g) \<and> pc g = Unlock_AddInt32 k a) \<or>
         (\<exists>k. holding g = [] \<and> paired (todo g) \<and> pc g = Unlock_Store k) \<or>
         (\<exists>k a. holding g = [] \<and> paired (todo g) \<and> pc g = Unlock_mutex_Unlock k a \<and>
                locks gl k = Some a) \<or>
         (\<exists>k a. locks gl k = Some a \<and> paired (CallLock k # todo g) \<and> holding g = [] \<and>
                pc g = Lock_AddInt32 k a) \<or>
         (\<exists>k a. locks gl k = Some a \<and> paired (CallLock k # todo g) \<and> holding g = [] \<and>
                pc g = Lock_mutex_Lock k a) \<or>
         (\<exists>k a. locks gl k = Some a \<and> paired (CallLock k # todo g) \<and> holding g = [k] \<and>
                pc g = Idle)"
  using assms unfolding good_def by blast


lemma good_mono:
  assumes ext: "\<And>k' a'. locks gl k' = Some a' \<Longrightarrow> locks gl1 k' = Some a'" and g: "good gl g"
  shows "good gl1 g \<and> owns gl1 b g = owns gl b g"
proof -
  from good_shapes [OF g] consider
      (rest) "holding g = []" "paired (todo g)"
        "pc g = Idle \<or> (\<exists>k a. pc g = Unlock_AddInt32 k a) \<or> (\<exists>k. pc g = Unlock_Store k)"
    | (uunlock) k a where "holding g = []" "paired (todo g)" "pc g = Unlock_mutex_Unlock k a"
        "locks gl k = Some a"
    | (lock) k a where "locks gl k = Some a" "paired (CallLock k # todo g)" "holding g = []"
        "pc g = Lock_AddInt32 k a \<or> pc g = Lock_mutex_Lock k a"
    | (hold) k a where "locks gl k = Some a" "paired (CallLock k # todo g)" "holding g = [k]"
        "pc g = Idle"
    by blast
  then show ?thesis
  proof cases
    case rest
    then have "good gl1 g" unfolding good_def by blast
    moreover from rest have "\<not> owns gl1 b g" "\<not> owns gl b g" by (auto simp: owns_def)
    ultimately show ?thesis by simp
  next
    case (uunlock k a)
    from ext [OF uunlock(4)] uunlock(1,2,3) have "good gl1 g" unfolding good_def by blast
    moreover from uunlock have "owns gl1 b g = (b = a)" "owns gl b g = (b = a)"
      by (auto simp: owns_def)
    ultimately show ?thesis by simp
  next
    case (lock k a)
    from ext [OF lock(1)] lock(2,3,4) have "good gl1 g" unfolding good_def by blast
    moreover from lock have "\<not> owns gl1 b g" "\<not> owns gl b g" by (auto simp: owns_def)
    ultimately show ?thesis by simp
  next
    case (hold k a)
    from ext [OF hold(1)] hold(2,3,4) have "good gl1 g" unfolding good_def by blast
    moreover from hold ext [OF hold(1)] have "owns gl1 b g = (b = a)" "owns gl b g = (b = a)"
      by (auto simp: owns_def)
    ultimately show ?thesis by simp
  qed
qed

lemma owns_shapes:
  "pc g = Idle \<Longrightarrow> holding g = [] \<Longrightarrow> \<not> owns gl b g"
  "pc g = Lock_AddInt32 k a \<Longrightarrow> holding g = [] \<Longrightarrow> \<not> owns gl b g"
  "pc g = Lock_mutex_Lock k a \<Longrightarrow> holding g = [] \<Longrightarrow> \<not> owns gl b g"
  "pc g = Unlock_AddInt32 k a \<Longrightarrow> holding g = [] \<Longrightarrow> \<not> owns gl b g"
  "pc g = Unlock_Store k \<Longrightarrow> holding g = [] \<Longrightarrow> \<not> owns gl b g"
  "pc g = Unlock_mutex_Unlock k a \<Longrightarrow> holding g = [] \<Longrightarrow> owns gl b g = (b = a)"
  "pc g = Idle \<Longrightarrow> holding g = [k] \<Longrightarrow> locks gl k = Some a \<Longrightarrow> owns gl b g = (b = a)"
  by (auto simp: owns_def)

lemma kept_same_locks:
  assumes "registry_ok gl1" and "good gl1 g1" and "locks gl1 = locks gl"
    and "\<And>b. (if owns gl b g1 then 1 else 0) + (if mutex (heap gl b) then 1 else 0) =
            (if owns gl b g then (1::nat) else 0) + (if mutex (heap gl1 b) then 1 else 0)"
  shows "kept gl g gl1 g1"
  using assms(1,2,4) by (simp add: kept_def good_cong [OF assms(3)] owns_cong [OF assms(3)])


lemma AddInt32_snd:
  "snd (AddInt32 a d gl) = gl\<lparr>heap := (heap gl)(a := (heap gl a)\<lparr>count := count (heap gl a) + d\<rparr>)\<rparr>"
  by (simp add: AddInt32_def Let_def)

lemma registry_ok_heap:
  "registry_ok gl \<Longrightarrow> \<forall>b. nextAddr gl \<le> b \<longrightarrow> \<not> mutex (h b) \<Longrightarrow> registry_ok (gl\<lparr>heap := h\<rparr>)"
  by (simp add: registry_ok_def)

lemma registry_ok_cleanKeys: "registry_ok (gl\<lparr>cleanKeys := x\<rparr>) = registry_ok gl"
  by (simp add: registry_ok_def)

lemma registry_ok_fresh:
  assumes "registry_ok gl" and "locks gl k = None"
  shows "registry_ok (gl\<lparr>heap := (heap gl)(nextAddr gl := \<lparr>mutex = False, count = 0\<rparr>),
                          nextAddr := Suc (nextAddr gl), locks := (locks gl)(k \<mapsto> nextAddr gl)\<rparr>)"
proof -
  from assms(1) have i: "\<And>k k' a. locks gl k = Some a \<Longrightarrow> locks gl k' = Some a \<Longrightarrow> k = k'"
    and b: "\<And>k a. locks gl k = Some a \<Longrightarrow> a < nextAddr gl"
    and f: "\<And>a. nextAddr gl \<le> a \<Longrightarrow> \<not> mutex (heap gl a)"
    unfolding registry_ok_def by blast+
  have 1: "k1 = k2" if "((locks gl)(k \<mapsto> nextAddr gl)) k1 = Some a"
    and "((locks gl)(k \<mapsto> nextAddr gl)) k2 = Some a" for k1 k2 a
  proof (cases "k1 = k"; cases "k2 = k")
    assume "k1 = k" "k2 \<noteq> k"
    with that b [of k2 a] show ?thesis by simp
  next
    assume "k1 \<noteq> k" "k2 = k"
    with that b [of k1 a] show ?thesis by simp
  next
    assume "k1 \<noteq> k" "k2 \<noteq> k"
    with that i [of k1 a k2] show ?thesis by simp
  qed simp
  have 2: "a < Suc (nextAddr gl)" if "((locks gl)(k \<mapsto> nextAddr gl)) k1 = Some a" for k1 a
    using that b [of k1 a] by (cases "k1 = k") auto
  have 3: "\<not> mutex (((heap gl)(nextAddr gl := \<lparr>mutex = False, count = 0\<rparr>)) a)"
    if "Suc (nextAddr gl) \<le> a" for a
    using that f [of a] by simp
  show ?thesis
    unfolding registry_ok_def
  proof (intro conjI allI impI)
    fix k1 k2 a
    assume "locks (gl\<lparr>heap := (heap gl)(nextAddr gl := \<lparr>mutex = False, count = 0\<rparr>),
        nextAddr := Suc (nextAddr gl), locks := (locks gl)(k \<mapsto> nextAddr gl)\<rparr>) k1 = Some a \<and>
      locks (gl\<lparr>heap := (heap gl)(nextAddr gl := \<lparr>mutex = False, count = 0\<rparr>),
        nextAddr := Suc (nextAddr gl), locks := (locks gl)(k \<mapsto> nextAddr gl)\<rparr>) k2 = Some a"
    then show "k1 = k2" using 1 [of k1 a k2] by simp
  next
    fix k1 a
    assume "locks (gl\<lparr>heap := (heap gl)(nextAddr gl := \<lparr>mutex = False, count = 0\<rparr>),
        nextAddr := Suc (nextAddr gl), locks := (locks gl)(k \<mapsto> nextAddr gl)\<rparr>) k1 = Some a"
    then show "a < nextAddr (gl\<lparr>heap := (heap gl)(nextAddr gl := \<lparr>mutex = False, count = 0\<rparr>),
        nextAddr := Suc (nextAddr gl), locks := (locks gl)(k \<mapsto> nextAddr gl)\<rparr>)"
      using 2 [of k1 a] by simp
  next
    fix a
    assume "nextAddr (gl\<lparr>heap := (heap gl)(nextAddr gl := \<lparr>mutex = False, count = 0\<rparr>),
        nextAddr := Suc (nextAddr gl), locks := (locks gl)(k \<mapsto> nextAddr gl)\<rparr>) \<le> a"
    then show "\<not> mutex (heap (gl\<lparr>heap := (heap gl)(nextAddr gl := \<lparr>mutex = False, count = 0\<rparr>),
        nextAddr := Suc (nextAddr gl), locks := (locks gl)(k \<mapsto> nextAddr gl)\<rparr>) a)"
      using 3 [of a] by simp
  qed
qed

lemma kept_idle:
  assumes i: "holding g = []" "paired (todo g)" "pc g = Idle"
    and r: "registry_ok gl" and s: "goroutine_step g gl = Steps (g1, gl1)"
  shows "kept gl g gl1 g1"
proof -
  from paired_cases [OF i(2)] s i(3) obtain k ds where
    t: "todo g = CallLock k # CallUnlock k # ds" and p: "paired ds"
    by (auto simp: goroutine_step_def)
  from s step_call_Lock [OF i(3) t, of gl]
  have g1: "g1 = g\<lparr>pc := Lock_AddInt32 k (fst (LoadOrStore k gl)), todo := CallUnlock k # ds\<rparr>"
    and gl1: "gl1 = snd (LoadOrStore k gl)" by simp_all
  show ?thesis
  proof (cases "locks gl k")
    case (Some a)
    then have e: "LoadOrStore k gl = (a, gl)" by (simp add: LoadOrStore_def)
    show ?thesis
    proof (rule kept_same_locks)
      show "registry_ok gl1" using r by (simp add: gl1 e)
      show "good gl1 g1" using Some i p by (simp add: g1 gl1 e good_def)
      show "locks gl1 = locks gl" by (simp add: gl1 e)
      show "(if owns gl b g1 then 1 else 0) + (if mutex (heap gl b) then 1 else 0) =
          (if owns gl b g then (1::nat) else 0) + (if mutex (heap gl1 b) then 1 else 0)" for b
        using i by (simp add: g1 gl1 e owns_def)
    qed
  next
    case None
    let ?a = "nextAddr gl"
    let ?gl = "gl\<lparr>heap := (heap gl)(?a := \<lparr>mutex = False, count = 0\<rparr>), nextAddr := Suc ?a,
                  locks := (locks gl)(k \<mapsto> ?a)\<rparr>"
    from None have e: "LoadOrStore k gl = (?a, ?gl)"
      by (simp add: LoadOrStore_def Let_def)
    from r have f: "\<not> mutex (heap gl ?a)" by (simp add: registry_ok_def)
    have 1: "registry_ok gl1"
      unfolding gl1 e snd_conv by (rule registry_ok_fresh [OF r None])
    have 2: "good gl1 g1"
      using i p by (simp add: g1 gl1 e good_def)
    have x: "locks gl1 k' = Some a'" if "locks gl k' = Some a'" for k' a'
      using that None by (auto simp: gl1 e)
    have 3: "good gl g' \<longrightarrow> good gl1 g' \<and> (\<forall>b. owns gl1 b g' = owns gl b g')" for g'
      using good_mono [of gl gl1 g', OF x] by blast
    have 4: "(if owns gl1 b g1 then 1 else 0) + (if mutex (heap gl b) then 1 else 0) =
          (if owns gl b g then (1::nat) else 0) + (if mutex (heap gl1 b) then 1 else 0)" for b
      using i f by (simp add: g1 gl1 e owns_def)
    from 1 2 3 4 show ?thesis unfolding kept_def by blast
  qed
qed

lemma kept_Unlock_AddInt32:
  assumes u: "holding g = []" "paired (todo g)" "pc g = Unlock_AddInt32 k a"
    and r: "registry_ok gl" and s: "goroutine_step g gl = Steps (g1, gl1)"
  shows "kept gl g gl1 g1"
proof -
  from s step_Unlock_AddInt32 [OF u(3), of gl]
  have g1: "g1 = g\<lparr>pc := (if sint (fst (AddInt32 a (- 1) gl)) \<le> 0 then Unlock_Store k else Idle)\<rparr>"
    and gl1: "gl1 = snd (AddInt32 a (- 1) gl)" by simp_all
  show ?thesis
  proof (rule kept_same_locks)
    show "registry_ok gl1" unfolding gl1 AddInt32_snd
      using r by (intro registry_ok_heap) (simp_all add: registry_ok_def)
    show "good gl1 g1" using u by (simp add: g1 good_def)
    show "locks gl1 = locks gl" by (simp add: gl1 AddInt32_snd)
    show "(if owns gl b g1 then 1 else 0) + (if mutex (heap gl b) then 1 else 0) =
        (if owns gl b g then (1::nat) else 0) + (if mutex (heap gl1 b) then 1 else 0)" for b
      using u by (simp add: g1 gl1 owns_def AddInt32_snd)
  qed
qed

lemma kept_Unlock_Store:
  assumes u: "holding g = []" "paired (todo g)" "pc g = Unlock_Store k"
    and r: "registry_ok gl" and s: "goroutine_step g gl = Steps (g1, gl1)"
  shows "kept gl g gl1 g1"
proof -
  from s step_Unlock_Store [OF u(3), of gl]
  have g1: "g1 = g\<lparr>pc := Idle\<rparr>" and gl1: "gl1 = cleanKeys_Store k gl" by simp_all
  show ?thesis
  proof (rule kept_same_locks)
    show "registry_ok gl1" using r by (simp add: gl1 cleanKeys_Store_def registry_ok_cleanKeys)
    show "good gl1 g1" using u by (simp add: g1 good_def)
    show "locks gl1 = locks gl" by (simp add: gl1 cleanKeys_Store_def)
    show "(if owns gl b g1 then 1 else 0) + (if mutex (heap gl b) then 1 else 0) =
        (if owns gl b g then (1::nat) else 0) + (if mutex (heap gl1 b) then 1 else 0)" for b
      using u by (simp add: g1 gl1 owns_def cleanKeys_Store_def)
  qed
qed

lemma kept_Unlock_mutex_Unlock:
  assumes u: "holding g = []" "paired (todo g)" "pc g = Unlock_mutex_Unlock k a"
      "locks gl k = Some a"
    and r: "registry_ok gl" and s: "goroutine_step g gl = Steps (g1, gl1)"
  shows "kept gl g gl1 g1"
proof -
  from s step_Unlock_mutex_Unlock [OF u(3), of gl]
  have m: "mutex (heap gl a)" and g1: "g1 = g\<lparr>pc := Unlock_AddInt32 k a\<rparr>"
    and gl1: "gl1 = gl\<lparr>heap := (heap gl)(a := (heap gl a)\<lparr>mutex := False\<rparr>)\<rparr>"
    by (simp_all split: if_splits)
  show ?thesis
  proof (rule kept_same_locks)
    show "registry_ok gl1" unfolding gl1
      using r by (intro registry_ok_heap) (simp_all add: registry_ok_def)
    show "good gl1 g1" using u by (simp add: g1 good_def)
    show "locks gl1 = locks gl" by (simp add: gl1)
    show "(if owns gl b g1 then 1 else 0) + (if mutex (heap gl b) then 1 else 0) =
        (if owns gl b g then (1::nat) else 0) + (if mutex (heap gl1 b) then 1 else 0)" for b
      using u m by (simp add: g1 gl1 owns_def)
  qed
qed

lemma kept_Lock_AddInt32:
  assumes l: "locks gl k = Some a" "paired (CallLock k # todo g)" "holding g = []"
      "pc g = Lock_AddInt32 k a"
    and r: "registry_ok gl" and s: "goroutine_step g gl = Steps (g1, gl1)"
  shows "kept gl g gl1 g1"
proof -
  from s step_Lock_AddInt32 [OF l(4), of gl]
  have g1: "g1 = g\<lparr>pc := Lock_mutex_Lock k a\<rparr>" and gl1: "gl1 = snd (AddInt32 a 1 gl)"
    by simp_all
  show ?thesis
  proof (rule kept_same_locks)
    show "registry_ok gl1" unfolding gl1 AddInt32_snd
      using r by (intro registry_ok_heap) (simp_all add: registry_ok_def)
    show "good gl1 g1" using l unfolding good_def by (simp add: g1 gl1 AddInt32_snd)
    show "locks gl1 = locks gl" by (simp add: gl1 AddInt32_snd)
    show "(if owns gl b g1 then 1 else 0) + (if mutex (heap gl b) then 1 else 0) =
        (if owns gl b g then (1::nat) else 0) + (if mutex (heap gl1 b) then 1 else 0)" for b
      using l by (simp add: g1 gl1 owns_def AddInt32_snd)
  qed
qed

lemma kept_Lock_mutex_Lock:
  assumes l: "locks gl k = Some a" "paired (CallLock k # todo g)" "holding g = []"
      "pc g = Lock_mutex_Lock k a"
    and r: "registry_ok gl" and s: "goroutine_step g gl = Steps (g1, gl1)"
  shows "kept gl g gl1 g1"
proof -
  from s step_Lock_mutex_Lock [OF l(4), of gl]
  have m: "\<not> mutex (heap gl a)" and g1: "g1 = g\<lparr>pc := Idle, holding := holding g @ [k]\<rparr>"
    and gl1: "gl1 = gl\<lparr>heap := (heap gl)(a := (heap gl a)\<lparr>mutex := True\<rparr>)\<rparr>"
    by (simp_all split: if_splits)
  from r l(1) have b: "a < nextAddr gl" unfolding registry_ok_def by blast
  show ?thesis
  proof (rule kept_same_locks)
    show "registry_ok gl1" unfolding gl1
      using r b by (intro registry_ok_heap) (simp_all add: registry_ok_def)
    show "good gl1 g1" using l unfolding good_def by (simp add: g1 gl1)
    show "locks gl1 = locks gl" by (simp add: gl1)
    show "(if owns gl b g1 then 1 else 0) + (if mutex (heap gl b) then 1 else 0) =
        (if owns gl b g then (1::nat) else 0) + (if mutex (heap gl1 b) then 1 else 0)" for b
      using l m by (simp add: g1 gl1 owns_def)
  qed
qed

lemma kept_holding:
  assumes h: "locks gl k = Some a" "paired (CallLock k # todo g)" "holding g = [k]" "pc g = Idle"
    and r: "registry_ok gl" and s: "goroutine_step g gl = Steps (g1, gl1)"
  shows "kept gl g gl1 g1"
proof -
  from paired_Lock [OF h(2)] obtain ds where t: "todo g = CallUnlock k # ds" and p: "paired ds"
    by blast
  from s step_call_Unlock [OF h(4) t h(1)]
  have g1: "g1 = g\<lparr>pc := Unlock_mutex_Unlock k a, todo := ds, holding := removeAll k (holding g)\<rparr>"
    and gl1: "gl1 = gl" by simp_all
  show ?thesis
  proof (rule kept_same_locks)
    show "registry_ok gl1" using r by (simp add: gl1)
    show "good gl1 g1" using h p unfolding good_def by (simp add: g1 gl1)
    show "locks gl1 = locks gl" by (simp add: gl1)
    show "(if owns gl b g1 then 1 else 0) + (if mutex (heap gl b) then 1 else 0) =
        (if owns gl b g then (1::nat) else 0) + (if mutex (heap gl1 b) then 1 else 0)" for b
      using h by (simp add: g1 gl1 owns_def)
  qed
qed

lemma goroutine_step_good:
  assumes g: "good gl g" and r: "registry_ok gl" and s: "goroutine_step g gl = Steps (g1, gl1)"
  shows "kept gl g gl1 g1"
  using good_shapes [OF g]
  by (elim disjE exE conjE)
     (blast intro: kept_idle [OF _ _ _ r s] kept_Unlock_AddInt32 [OF _ _ _ r s]
        kept_Unlock_Store [OF _ _ _ r s] kept_Unlock_mutex_Unlock [OF _ _ _ _ r s]
        kept_Lock_AddInt32 [OF _ _ _ _ r s] kept_Lock_mutex_Lock [OF _ _ _ _ r s]
        kept_holding [OF _ _ _ _ r s])+

lemma length_filter_update:
  "i < length xs \<Longrightarrow>
     length (filter P (xs[i := y])) + (if P (xs ! i) then 1 else 0) =
     length (filter P xs) + (if P y then 1 else 0)"
proof (induction xs arbitrary: i)
  case Nil
  then show ?case by simp
next
  case (Cons x xs)
  then show ?case by (cases i) auto
qed

lemma step_Run_exclusive:
  assumes x: "exclusive c" and s: "step v (Run i) c = Steps c1"
  shows "exclusive c1"
proof -
  let ?gs = "goroutines c" and ?gl = "shared c"
  from s obtain g1 gl1 where i: "i < length ?gs"
    and t: "goroutine_step (?gs ! i) ?gl = Steps (g1, gl1)"
    and c1: "c1 = c\<lparr>shared := gl1, goroutines := ?gs[i := g1]\<rparr>"
    by (auto split: if_splits progress.splits)
  from x have p: "\<not> in_pass (cleaner c)" and r: "registry_ok ?gl"
    and g: "\<forall>g \<in> set ?gs. good ?gl g"
    and o: "\<And>a. length (filter (owns ?gl a) ?gs) = (if mutex (heap ?gl a) then 1 else 0)"
    unfolding exclusive_def by blast+
  from i g have gi: "good ?gl (?gs ! i)" by simp
  from goroutine_step_good [OF gi r t]
  have r1: "registry_ok gl1" and g1: "good gl1 g1"
    and k: "\<And>g'. good ?gl g' \<Longrightarrow> good gl1 g' \<and> (\<forall>b. owns gl1 b g' = owns ?gl b g')"
    and d: "\<And>b. (if owns gl1 b g1 then 1 else 0) + (if mutex (heap ?gl b) then 1 else 0) =
            (if owns ?gl b (?gs ! i) then (1::nat) else 0) + (if mutex (heap gl1 b) then 1 else 0)"
    unfolding kept_def by blast+
  have a: "\<forall>g \<in> set (?gs[i := g1]). good gl1 g"
  proof
    fix g'
    assume "g' \<in> set (?gs[i := g1])"
    then have "g' = g1 \<or> g' \<in> set ?gs"
      using set_update_subset_insert [of ?gs i g1] by auto
    with g1 g k show "good gl1 g'" by blast
  qed
  have b: "length (filter (owns gl1 a) (?gs[i := g1])) = (if mutex (heap gl1 a) then 1 else 0)" for a
  proof -
    have "filter (owns gl1 a) ?gs = filter (owns ?gl a) ?gs"
      by (rule filter_cong) (use g k in auto)
    moreover have "owns gl1 a (?gs ! i) = owns ?gl a (?gs ! i)"
      using k [OF gi] by blast
    moreover note length_filter_update [OF i, of "owns gl1 a" g1] o [of a] d [of a]
    ultimately show ?thesis
      by (simp split: if_splits)
  qed
  from p r1 a b show ?thesis
    unfolding exclusive_def c1 by simp
qed

lemma step_exclusive:
  assumes "exclusive c" and "step v e c = Steps c1" and "e \<noteq> Ticker"
  shows "exclusive c1"
proof (cases e)
  case (Run i)
  with assms step_Run_exclusive show ?thesis by blast
next
  case Ticker
  with assms show ?thesis by simp
next
  case CloseCh
  with assms show ?thesis by (auto simp: exclusive_def split: if_splits)
next
  case Sweep
  from assms(1) have "\<not> in_pass (cleaner c)" by (simp add: exclusive_def)
  then have "sweep_step v (cleaner c) (shared c) = Disabled"
    by (cases "cleaner c") simp_all
  with assms(2) Sweep show ?thesis by simp
qed

lemma exec_exclusive:
  assumes "exclusive c" and "exec v es c = Steps c1" and "Ticker \<notin> set es"
  shows "exclusive c1"
  using assms
proof (induction es arbitrary: c)
  case Nil
  then show ?case by simp
next
  case (Cons e es)
  from Cons.prems(2) obtain c2 where s: "step v e c = Steps c2" and r: "exec v es c2 = Steps c1"
    by (auto split: progress.splits)
  from Cons.prems(3) have "e \<noteq> Ticker" "Ticker \<notin> set es" by auto
  from Cons.IH [OF step_exclusive [OF Cons.prems(1) s this(1)] r this(2)] show ?case .
qed

lemma exclusive_program:
  assumes "\<forall>p \<in> set ps. paired p"
  shows "exclusive (program ps)"
proof -
  have "filter (owns (New []) a) (map (\<lambda>p. \<lparr>pc = Idle, todo = p, holding = []\<rparr>) ps) = []" for a
    by (simp add: owns_def filter_empty_conv)
  with assms show ?thesis
    by (simp add: exclusive_def program_def registry_ok_def good_def New_def)
qed

lemma holders_length:
  "length (holders k c) = length (filter (\<lambda>g. k \<in> set (holding g)) (goroutines c))"
proof -
  let ?P = "\<lambda>g. k \<in> set (holding g)" and ?gs = "goroutines c"
  have "filter ?P ?gs = filter ?P (map (nth ?gs) [0..<length ?gs])"
    by (simp only: map_nth)
  also have "\<dots> = map (nth ?gs) (filter (?P \<circ> nth ?gs) [0..<length ?gs])"
    by (rule filter_map)
  finally have "length (filter ?P ?gs) = length (filter (?P \<circ> nth ?gs) [0..<length ?gs])"
    by simp
  then show ?thesis
    by (simp add: holders_def comp_def)
qed

lemma length_filter_imp:
  "(\<And>x. x \<in> set xs \<Longrightarrow> P x \<Longrightarrow> Q x) \<Longrightarrow> length (filter P xs) \<le> length (filter Q xs)"
  by (induction xs) auto

lemma exclusive_holders:
  assumes "exclusive c"
  shows "length (holders k c) \<le> 1"
proof (cases "locks (shared c) k")
  case None
  have "filter (\<lambda>g. k \<in> set (holding g)) (goroutines c) = []"
  proof (simp only: filter_empty_conv, intro ballI)
    fix g assume "g \<in> set (goroutines c)"
    with assms have "good (shared c) g" by (simp add: exclusive_def)
    from good_shapes [OF this] None show "k \<notin> set (holding g)" by auto
  qed
  then show ?thesis by (simp add: holders_length)
next
  case (Some a)
  have "length (filter (\<lambda>g. k \<in> set (holding g)) (goroutines c)) \<le>
      length (filter (owns (shared c) a) (goroutines c))"
  proof (rule length_filter_imp)
    fix g assume "g \<in> set (goroutines c)" and h: "k \<in> set (holding g)"
    with assms have "good (shared c) g" by (simp add: exclusive_def)
    from good_shapes [OF this] h have "holding g = [k]" by auto
    with Some show "owns (shared c) a g" by (auto simp: owns_def)
  qed
  also from assms have "\<dots> \<le> 1" by (simp add: exclusive_def)
  finally show ?thesis by (simp add: holders_length)
qed

section \<open>Mutual exclusion\<close>

text \<open>
  C1. Mutual exclusion per key: at most one caller at a time is between a completed
  \<open>Lock k\<close> and its \<open>Unlock k\<close>. The code does not keep this, in either package. In
  the schedule \<open>race\<close> a pass of the sweep runs after goroutine 1 has fetched the item of
  \<open>user1\<close> with \<open>LoadOrStore\<close> and before it has counted itself with \<open>AddInt32\<close>: the
  count is 0, the mutex is free, and the pass deletes the entry. Goroutine 1 then locks
  the mutex of the deleted item, goroutine 2 finds no entry, creates a second item and
  locks its mutex. Both have returned from \<open>Lock user1\<close> and neither has called
  \<open>Unlock\<close>. Taking the mutex in the pass, as klocker does, does not help.
\<close>

theorem mutual_exclusion_broken_by_sweep:
  "observe (holders ''user1'')
     (exec Grouplock (race Grouplock)
        (program [[CallLock ''user1'', CallUnlock ''user1''], [CallLock ''user1''],
                  [CallLock ''user1'']]))
   = Some [1, 2] \<and>
   observe (holders ''user1'')
     (exec Klocker (race Klocker)
        (program [[CallLock ''user1'', CallUnlock ''user1''], [CallLock ''user1''],
                  [CallLock ''user1'']]))
   = Some [1, 2]"
  by (simp add: race_def ops numeral_eq_Suc)

text \<open>
  Without the sweep the lock does exclude: when every goroutine makes its calls in pairs
  \<open>Lock k; Unlock k\<close> and the \<open>select\<close> of the cleaner takes no tick, then at every
  instant at most one goroutine is in the critical section of a key.
\<close>

lemma mutual_exclusion_without_sweep:
  assumes "\<forall>p \<in> set ps. paired p" and "Ticker \<notin> set es"
    and "exec v es (program ps) = Steps c"
  shows "length (holders k c) \<le> 1"
  using exclusive_holders [OF exec_exclusive [OF exclusive_program [OF assms(1)] assms(3,2)]] .

section \<open>One entry per key\<close>

text \<open>
  C2. At most one entry per key: when concurrent first callers of \<open>Lock key\<close> race on
  a key that has no entry, exactly one entry is created and all callers observe the same
  entry. The registry is a map, so at one instant it gives a key at most one entry; but
  the code does not keep the callers on one entry, in either package. Three goroutines
  call \<open>Lock user1; Unlock user1\<close> on a new handle, none has called \<open>Lock user1\<close>
  before, and they run by the schedule \<open>first_race\<close>. Goroutine 1 creates item 0 with
  \<open>LoadOrStore\<close> and has not yet counted itself with \<open>AddInt32\<close>; goroutine 0 locks
  and unlocks item 0, which leaves the count 0 and the key pending; a pass of the sweep
  finds the count 0 and the mutex free and deletes the entry; goroutine 2 finds no entry
  and creates item 1. Two items have been created for the key, the entry is item 1, and
  goroutines 1 and 2, both inside their first \<open>Lock user1\<close>, hold items 0 and 1.
\<close>

theorem racing_first_Locks_create_two_entries:
  "entry ''user1''
     (program [[CallLock ''user1'', CallUnlock ''user1''],
               [CallLock ''user1'', CallUnlock ''user1''],
               [CallLock ''user1'', CallUnlock ''user1'']])
   = None \<and>
   observe (\<lambda>c. (entry ''user1'' c, nextAddr (shared c), map (lockData \<circ> pc) (goroutines c)))
     (exec Grouplock (first_race Grouplock)
        (program [[CallLock ''user1'', CallUnlock ''user1''],
                  [CallLock ''user1'', CallUnlock ''user1''],
                  [CallLock ''user1'', CallUnlock ''user1'']]))
   = Some (Some 1, 2, [None, Some 0, Some 1]) \<and>
   observe (\<lambda>c. (entry ''user1'' c, nextAddr (shared c), map (lockData \<circ> pc) (goroutines c)))
     (exec Klocker (first_race Klocker)
        (program [[CallLock ''user1'', CallUnlock ''user1''],
                  [CallLock ''user1'', CallUnlock ''user1''],
                  [CallLock ''user1'', CallUnlock ''user1'']]))
   = Some (Some 1, 2, [None, Some 0, Some 1])"
  by (simp add: first_race_def ops numeral_eq_Suc)

text \<open>
  \<open>LoadOrStore\<close> alone does keep the callers on one entry. When the key has no entry,
  is not pending and is not in a pass under way, and the goroutines call \<open>Lock key\<close> and
  nothing else, so that no \<open>Unlock\<close> makes the key pending, then in every order of their
  atomic operations and of those of the cleaner and its sweep exactly one item has been
  created once a caller has started (none before), it is the entry of the key, and every
  caller that has started holds that item.
\<close>

lemma Locks_alone_create_one_entry:
  assumes "unseen key c"
    and "\<forall>g \<in> set (goroutines c). waiting key g"
    and "exec v es c = Steps c1"
  shows "one_entry key c c1"
proof -
  from assms(1,2) have "one_entry key c c" by (simp add: one_entry_def unseen_def)
  from exec_one_entry [OF this assms(3)] show ?thesis .
qed

section \<open>Stop\<close>

text \<open>
  C3. A second \<open>Stop\<close> is not a no-op: \<open>Stop\<close> is \<open>close(gl.closeCh)\<close> and nothing else,
  in both packages, and closing a closed channel panics. The first \<open>Stop\<close> of a handle
  returns, closes \<open>closeCh\<close> and changes nothing else; a \<open>Stop\<close> after it panics.
\<close>

theorem Stop_once:
  "Stop gl = Returns gl1 \<Longrightarrow>
     closeCh gl = Open \<and> gl1 = gl\<lparr>closeCh := Closed\<rparr> \<and>
     Stop gl1 = Fails Panic_close_of_closed_channel"
  by (auto simp: Stop_def close_chan_def split: chan.splits)

theorem Stop_once_witness:
  "Stop (New []) = Returns ((New [])\<lparr>closeCh := Closed\<rparr>) \<and>
   Stop ((New [])\<lparr>closeCh := Closed\<rparr>) = Fails Panic_close_of_closed_channel"
  using Stop_once [of "New []" "(New [])\<lparr>closeCh := Closed\<rparr>"]
  by (simp add: Stop_def close_chan_def New_def)

text \<open>Two calls of \<open>Stop\<close> on a new handle: the second one panics.\<close>

theorem Stop_twice_panics:
  "calls [CallStop, CallStop] (New []) = Fails Panic_close_of_closed_channel"
  by (simp add: Stop_def close_chan_def New_def)

section \<open>The sweep and the mutex\<close>

text \<open>
  C4. The sweep makes no non-blocking attempt and skips no key whose mutex is held. For
  a pending key with an entry, klocker's pass takes the mutex with the blocking
  \<open>Lock\<close>, and grouplock's pass takes no mutex at all. So a pass of klocker cannot
  go on exactly while it asks for a mutex that is held: it waits there until the holder
  releases it. Run with nothing in between, the pass waits when some pending key has an
  entry whose mutex is held, and otherwise it completes with the result of grouplock's
  pass. A pass of grouplock, whatever the callers do, can always perform its next
  operation.
\<close>

theorem sweep_waits_at_held_mutex:
  "(step v Sweep c = Disabled \<longleftrightarrow>
      \<not> in_pass (cleaner c) \<or>
      (\<exists>k a ks keysToRemove.
         cleaner c = Cleanup_mutex_Lock k a ks keysToRemove \<and> mutex (item a c))) \<and>
   (exec Grouplock es (program ps) = Steps c \<and> in_pass (cleaner c) \<longrightarrow>
      (\<exists>c1. step Grouplock Sweep c = Steps c1)) \<and>
   klocker_cleanup gl =
     (if \<exists>k \<in> set (cleanKeys gl). held gl k
      then Blocks (swept (takeWhile (\<lambda>k. \<not> held gl k) (cleanKeys gl)) gl)
      else Returns (cleanup gl))"
proof -
  have d: "\<And>v c. step v Sweep c = Disabled \<longleftrightarrow> sweep_step v (cleaner c) (shared c) = Disabled"
    by (auto split: progress.splits)
  have a: "step v Sweep c = Disabled \<longleftrightarrow>
      \<not> in_pass (cleaner c) \<or>
      (\<exists>k a ks keysToRemove.
         cleaner c = Cleanup_mutex_Lock k a ks keysToRemove \<and> mutex (item a c))"
    by (simp only: d sweep_step_Disabled_iff item_def)
  have b: "\<exists>c1. step Grouplock Sweep c = Steps c1"
    if "exec Grouplock es (program ps) = Steps c" and "in_pass (cleaner c)"
  proof -
    have "\<not> at_mutex (cleaner (program ps))" by (simp add: program_def)
    from exec_Grouplock_pc [OF that(1) this] have n: "\<not> at_mutex (cleaner c)" .
    with that(2) have "sweep_step Grouplock (cleaner c) (shared c) \<noteq> Disabled"
      by (auto simp: sweep_step_Disabled_iff)
    moreover from n have "sweep_step Grouplock (cleaner c) (shared c) \<noteq> Crashes e" for e
      by (auto dest: sweep_step_Crashes)
    ultimately obtain p1 gl1 where "sweep_step Grouplock (cleaner c) (shared c) = Steps (p1, gl1)"
      by (cases "sweep_step Grouplock (cleaner c) (shared c)") auto
    then show ?thesis by simp
  qed
  from a b klocker_cleanup_eq show ?thesis by blast
qed

theorem sweep_waits_at_held_mutex_witness:
  "observe (in_pass \<circ> cleaner)
     (exec Grouplock (replicate 7 (Run 0) @ [Ticker])
        (program [[CallLock ''user1'', CallUnlock ''user1'']])) = Some True \<and>
   exec Grouplock ((replicate 7 (Run 0) @ [Ticker]) @ [Sweep])
     (program [[CallLock ''user1'', CallUnlock ''user1'']]) \<noteq> Disabled \<and>
   klocker_cleanup (locked\<lparr>cleanKeys := [''user1'']\<rparr>) = Blocks (locked\<lparr>cleanKeys := [''user1'']\<rparr>)"
proof -
  let ?c = "program [[CallLock ''user1'', CallUnlock ''user1'']]"
  let ?es = "replicate 7 (Run 0) @ [Ticker]"
  let ?gl = "locked\<lparr>cleanKeys := [''user1'']\<rparr>"
  have o: "observe (in_pass \<circ> cleaner) (exec Grouplock ?es ?c) = Some True"
    by (simp add: ops numeral_eq_Suc)
  then obtain c where x: "exec Grouplock ?es ?c = Steps c" and i: "in_pass (cleaner c)"
    by (auto dest: observeD)
  note t = sweep_waits_at_held_mutex [where v = Grouplock and c = c and es = ?es
      and ps = "[[CallLock ''user1'', CallUnlock ''user1'']]" and gl = ?gl]
  from t x i obtain c1 where "step Grouplock Sweep c = Steps c1"
    by blast
  then have "exec Grouplock (?es @ [Sweep]) ?c = Steps c1"
    by (simp only: exec_snoc [OF x])
  then have s: "exec Grouplock (?es @ [Sweep]) ?c \<noteq> Disabled"
    by (simp only: progress.distinct not_False_eq_True)
  have h: "\<exists>k \<in> set (cleanKeys ?gl). held ?gl k"
    by (simp add: held_def locked_def)
  have "takeWhile (\<lambda>k. \<not> held ?gl k) (cleanKeys ?gl) = []"
    by (simp add: held_def locked_def)
  then have w: "swept (takeWhile (\<lambda>k. \<not> held ?gl k) (cleanKeys ?gl)) ?gl = ?gl"
    by (simp add: swept_def)
  from t h w have "klocker_cleanup ?gl = Blocks ?gl"
    by simp
  with o s show ?thesis
    by blast
qed

text \<open>
  A pass of klocker that a caller blocks: goroutine 0 locks and unlocks \<open>user1\<close>, which
  makes the key pending, and locks it again. A tick starts a pass; its first operation
  finds the entry, and its next operation, \<open>mutex.Lock\<close>, cannot be performed while
  goroutine 0 holds the key.
\<close>

theorem sweep_blocked_by_holder:
  "observe cleaner
     (exec Klocker (replicate 10 (Run 0) @ [Ticker, Sweep])
        (program [[CallLock ''user1'', CallUnlock ''user1'', CallLock ''user1'']]))
   = Some (Cleanup_mutex_Lock ''user1'' 0 [] []) \<and>
   observe (holders ''user1'')
     (exec Klocker (replicate 10 (Run 0) @ [Ticker, Sweep])
        (program [[CallLock ''user1'', CallUnlock ''user1'', CallLock ''user1'']]))
   = Some [0] \<and>
   exec Klocker (replicate 10 (Run 0) @ [Ticker, Sweep, Sweep])
     (program [[CallLock ''user1'', CallUnlock ''user1'', CallLock ''user1'']]) = Disabled"
  by (simp add: ops numeral_eq_Suc)

section \<open>The sweep: check and delete\<close>

text \<open>
  C5. In a pass of klocker that runs to its end, for a pending key \<open>k\<close> with the entry
  \<open>a\<close>: the mutex of \<open>a\<close> was free, the pass takes it and checks the count while it holds
  it. If the count is at most 0 the pass deletes the entry, releases the mutex, and at
  its end drops \<open>k\<close> from the pending set. If the count is above 0 the pass releases
  the mutex and leaves the entry, and \<open>k\<close> stays in the pending set: only the keys
  whose entry the pass deleted are in \<open>keysToRemove\<close>. The pass leaves every item as it
  was. grouplock's pass ends with the same registry and pending set, without the mutex.
\<close>

theorem cleanup_check_and_delete:
  assumes "klocker_cleanup gl = Returns gl1" and "k \<in> set (cleanKeys gl)"
    and "locks gl k = Some a"
  shows "\<not> mutex (heap gl a) \<and>
         sweeps Klocker 2 (Cleanup_Range (k # ks) keysToRemove) gl =
           Steps (Cleanup_LoadInt32 k a ks keysToRemove,
                  gl\<lparr>heap := (heap gl)(a := (heap gl a)\<lparr>mutex := True\<rparr>)\<rparr>) \<and>
         (if sint (count (heap gl a)) \<le> 0
          then sweeps Klocker 5 (Cleanup_Range (k # ks) keysToRemove) gl =
                 Steps (Cleanup_Range ks (keysToRemove @ [k]), Delete k gl) \<and>
               locks gl1 k = None \<and> k \<notin> set (cleanKeys gl1) \<and>
               locks (cleanup gl) k = None \<and> k \<notin> set (cleanKeys (cleanup gl))
          else sweeps Klocker 4 (Cleanup_Range (k # ks) keysToRemove) gl =
                 Steps (Cleanup_Range ks keysToRemove, gl) \<and>
               locks gl1 k = Some a \<and> k \<in> set (cleanKeys gl1) \<and>
               locks (cleanup gl) k = Some a \<and> k \<in> set (cleanKeys (cleanup gl))) \<and>
         heap gl1 = heap gl"
proof -
  from assms have nh: "\<not> mutex (heap gl a)" and g: "gl1 = cleanup gl"
    by (auto simp: klocker_cleanup_eq held_def split: if_splits)
  have "heap gl a\<lparr>mutex := False\<rparr> = heap gl a"
    using nh by simp
  then have u: "(heap gl)(a := heap gl a\<lparr>mutex := False\<rparr>) = heap gl"
    by (simp add: fun_upd_idem)
  show ?thesis
    using assms(2,3) nh u
    by (simp add: g cleanup_eq idle_def numeral_2_eq_2 numeral_eq_Suc Load_def mutex_Lock_def
        mutex_Unlock_def LoadInt32_def Delete_def)
qed

theorem cleanup_check_and_delete_witness:
  "klocker_cleanup released = Returns (cleanup released) \<and>
   ''user1'' \<in> set (cleanKeys released) \<and>
   locks released ''user1'' = Some 0 \<and> sint (count (heap released 0)) \<le> 0 \<and>
   locks (cleanup released) ''user1'' = None \<and> ''user1'' \<notin> set (cleanKeys (cleanup released))"
proof -
  have h: "klocker_cleanup released = Returns (cleanup released)"
    by (simp add: klocker_cleanup_eq held_def released_def)
  have k: "''user1'' \<in> set (cleanKeys released)" and l: "locks released ''user1'' = Some 0"
    by (simp_all add: released_def)
  have c: "sint (count (heap released 0)) \<le> 0"
    by (simp add: released_def)
  from cleanup_check_and_delete [OF h k l, of "[]" "[]"] c h k l show ?thesis
    by simp
qed

text \<open>
  A key whose count is above 0 stays pending: goroutine 0 locks and unlocks \<open>user1\<close>,
  goroutine 1 performs the \<open>LoadOrStore\<close> and the \<open>AddInt32\<close> of its \<open>Lock\<close>, and a
  pass of klocker runs to its end. It found the mutex free and the count 1. The key is
  still in the pending set.
\<close>

theorem busy_key_stays_pending:
  "observe pending
     (exec Klocker (replicate 7 (Run 0) @ [Run 1, Run 1, Ticker] @ replicate 6 Sweep)
        (program [[CallLock ''user1'', CallUnlock ''user1''], [CallLock ''user1'']]))
   = Some [''user1''] \<and>
   observe cleaner
     (exec Klocker (replicate 7 (Run 0) @ [Run 1, Run 1, Ticker] @ replicate 6 Sweep)
        (program [[CallLock ''user1'', CallUnlock ''user1''], [CallLock ''user1'']]))
   = Some Cleaner_select \<and>
   observe (item 0)
     (exec Klocker (replicate 7 (Run 0) @ [Run 1, Run 1, Ticker] @ replicate 6 Sweep)
        (program [[CallLock ''user1'', CallUnlock ''user1''], [CallLock ''user1'']]))
   = Some \<lparr>mutex = False, count = 1\<rparr>"
  by (simp add: ops numeral_eq_Suc)

section \<open>Unlock\<close>

text \<open>
  C6. \<open>Unlock\<close> of a key that has no entry in the registry returns and leaves the whole
  state as it was: no entry is created, the registry and the pending set are unchanged,
  and nothing fails. It is one atomic operation, the \<open>Load\<close>.
\<close>

theorem Unlock_absent_noop:
  "locks gl key = None \<Longrightarrow>
     Unlock key gl = Returns gl \<and> steps 1 (Unlock_Load key) gl = Steps (Idle, gl)"
  by (simp add: Unlock_def Load_def)

theorem Unlock_absent_noop_witness:
  "locks (New []) ''user1'' = None \<and> Unlock ''user1'' (New []) = Returns (New []) \<and>
   steps 1 (Unlock_Load ''user1'') (New []) = Steps (Idle, New [])"
  using Unlock_absent_noop [of "New []" "''user1''"] by (simp add: New_def)

text \<open>
  C7. \<open>Unlock\<close> of a key with the entry \<open>a\<close>, whose mutex is held as it is after the
  matching \<open>Lock\<close>: after its first two operations the mutex is released and the count
  is still what it was; the third operation takes exactly one off the count (in 32 bits);
  the key is stored in the pending set if and only if the new count is at most 0, and the
  call returns. Nothing else changes.
\<close>

theorem Unlock_present:
  assumes "locks gl key = Some a" and "mutex (heap gl a)"
  shows "steps 2 (Unlock_Load key) gl =
           Steps (Unlock_AddInt32 key a,
                  gl\<lparr>heap := (heap gl)(a := (heap gl a)\<lparr>mutex := False\<rparr>)\<rparr>) \<and>
         steps 3 (Unlock_Load key) gl =
           Steps (if sint (count (heap gl a) - 1) \<le> 0 then Unlock_Store key else Idle,
                  gl\<lparr>heap := (heap gl)(a := \<lparr>mutex = False, count = count (heap gl a) - 1\<rparr>)\<rparr>) \<and>
         Unlock key gl =
           Returns (gl\<lparr>heap := (heap gl)(a := \<lparr>mutex = False, count = count (heap gl a) - 1\<rparr>),
                      cleanKeys :=
                        (if sint (count (heap gl a) - 1) \<le> 0 \<and> key \<notin> set (cleanKeys gl)
                         then cleanKeys gl @ [key] else cleanKeys gl)\<rparr>)"
  using assms
  by (simp add: numeral_2_eq_2 numeral_3_eq_3 Unlock_def Load_def mutex_Unlock_def AddInt32_def
      cleanKeys_Store_def Let_def lockItem_update)

theorem Unlock_present_witness:
  "locks locked ''user1'' = Some 0 \<and> mutex (heap locked 0) \<and>
   Unlock ''user1'' locked = Returns released"
proof -
  have l: "locks locked ''user1'' = Some 0" and m: "mutex (heap locked 0)"
    by (simp_all add: locked_def)
  from Unlock_present [OF l m] l m show ?thesis
    by (simp add: locked_def released_def lockItem_update)
qed

text \<open>An \<open>Unlock\<close> that finds the mutex of the entry free is a fatal error of the program.\<close>

lemma Unlock_unlocked_fatal:
  "locks gl key = Some a \<Longrightarrow> \<not> mutex (heap gl a) \<Longrightarrow>
     Unlock key gl = Fails Fatal_unlock_of_unlocked_mutex"
  by (simp add: Unlock_def Load_def mutex_Unlock_def)

section \<open>Lock\<close>

text \<open>
  C8. \<open>Lock key\<close> fetches the entry of the key or, when there is none, creates it with
  count 0 and a free mutex, in one atomic \<open>LoadOrStore\<close> that returns the item \<open>a\<close>. Its
  second operation adds exactly one to the count of \<open>a\<close> (in 32 bits), and only then
  does the call ask for the mutex: when the mutex is held the call waits, with the count
  already raised; when it is free the call takes it and returns. So the call returns only
  with the mutex taken, and it never fails.
\<close>

theorem Lock_counts_then_acquires:
  assumes "LoadOrStore key gl = (a, gl1)"
  shows "(case locks gl key of
            Some b \<Rightarrow> a = b \<and> gl1 = gl
          | None \<Rightarrow>
              a = nextAddr gl \<and>
              gl1 = gl\<lparr>heap := (heap gl)(a := \<lparr>mutex = False, count = 0\<rparr>),
                       nextAddr := Suc a, locks := (locks gl)(key \<mapsto> a)\<rparr>) \<and>
         steps 2 (Lock_LoadOrStore key) gl =
           Steps (Lock_mutex_Lock key a,
                  gl1\<lparr>heap := (heap gl1)(a := (heap gl1 a)\<lparr>count := count (heap gl1 a) + 1\<rparr>)\<rparr>) \<and>
         Lock key gl =
           (if mutex (heap gl1 a)
            then Blocks (gl1\<lparr>heap := (heap gl1)(a := (heap gl1 a)\<lparr>count := count (heap gl1 a) + 1\<rparr>)\<rparr>)
            else Returns (gl1\<lparr>heap := (heap gl1)(a := \<lparr>mutex = True, count = count (heap gl1 a) + 1\<rparr>)\<rparr>)) \<and>
         (\<forall>e. Lock key gl \<noteq> Fails e)"
  using assms
  by (auto simp: numeral_2_eq_2 Lock_def LoadOrStore_def AddInt32_def mutex_Lock_def Let_def
      lockItem_update split: option.splits)

theorem Lock_counts_then_acquires_witness:
  "LoadOrStore ''user1'' (New []) = (0, snd (LoadOrStore ''user1'' (New []))) \<and>
   Lock ''user1'' (New []) = Returns locked \<and>
   Lock ''user1'' locked = Blocks (locked\<lparr>heap := (heap locked)(0 := \<lparr>mutex = True, count = 2\<rparr>)\<rparr>)"
proof -
  have n: "LoadOrStore ''user1'' (New []) = (0, snd (LoadOrStore ''user1'' (New [])))"
    by (simp add: LoadOrStore_def New_def)
  have l: "LoadOrStore ''user1'' locked = (0, locked)"
    by (simp add: LoadOrStore_def locked_def)
  from Lock_counts_then_acquires [OF n]
  have a: "Lock ''user1'' (New []) = Returns locked"
    by (simp add: LoadOrStore_def New_def locked_def)
  from Lock_counts_then_acquires [OF l]
  have b: "Lock ''user1'' locked =
      Blocks (locked\<lparr>heap := (heap locked)(0 := \<lparr>mutex = True, count = 2\<rparr>)\<rparr>)"
    by (simp add: locked_def)
  from n a b show ?thesis
    by blast
qed

section \<open>Stop and the sweep\<close>

text \<open>
  C9. \<open>Stop\<close> closes \<open>closeCh\<close> and changes nothing else: the registry, the pending set
  and the items are as before. Every operation of \<open>Lock\<close> and \<open>Unlock\<close> does with a
  closed channel what it does with an open one, so the entries stay usable. \<open>Stop\<close> does
  not end the sweep by itself: it makes the \<open>closeCh\<close> case of the cleaner's \<open>select\<close>
  ready, and the sweep ends when the \<open>select\<close> takes that case. From then on, whatever
  the callers do, no entry is ever removed: every key that has an entry keeps that entry.
  A tick that the \<open>select\<close> takes before, although the channel is closed, still runs a
  pass.
\<close>

theorem Stop_ends_sweep_when_seen:
  "(Stop gl = Returns gl1 \<longrightarrow> gl1 = gl\<lparr>closeCh := Closed\<rparr>) \<and>
   (p \<noteq> Stop_close \<longrightarrow>
      pc_step p (gl\<lparr>closeCh := Closed\<rparr>) =
        (case pc_step p gl of
           Steps (p1, gl2) \<Rightarrow> Steps (p1, gl2\<lparr>closeCh := Closed\<rparr>)
         | Disabled \<Rightarrow> Disabled
         | Crashes e \<Rightarrow> Crashes e)) \<and>
   (closeCh (shared c) = Closed \<and> cleaner c = Cleaner_select \<longrightarrow>
      step v CloseCh c = Steps (c\<lparr>cleaner := Cleaner_returned\<rparr>)) \<and>
   (cleaner c = Cleaner_returned \<and> exec v es c = Steps c1 \<longrightarrow>
      cleaner c1 = Cleaner_returned \<and> (\<forall>k a. entry k c = Some a \<longrightarrow> entry k c1 = Some a))"
proof -
  have a: "Stop gl = Returns gl1 \<longrightarrow> gl1 = gl\<lparr>closeCh := Closed\<rparr>"
    by (auto simp: Stop_def close_chan_def split: chan.splits)
  have b: "closeCh (shared c) = Closed \<and> cleaner c = Cleaner_select \<longrightarrow>
      step v CloseCh c = Steps (c\<lparr>cleaner := Cleaner_returned\<rparr>)"
    by simp
  from a b pc_step_closeCh exec_returned show ?thesis
    by blast
qed

theorem Stop_ends_sweep_when_seen_witness:
  "Stop locked = Returns (locked\<lparr>closeCh := Closed\<rparr>) \<and>
   observe cleaner
     (exec Grouplock (replicate 4 (Run 0) @ [CloseCh])
        (program [[CallLock ''user1'', CallStop, CallUnlock ''user1'']])) = Some Cleaner_returned \<and>
   observe (entry ''user1'')
     (exec Grouplock (replicate 4 (Run 0) @ [CloseCh])
        (program [[CallLock ''user1'', CallStop, CallUnlock ''user1'']])) = Some (Some 0) \<and>
   observe (entry ''user1'')
     (exec Grouplock ((replicate 4 (Run 0) @ [CloseCh]) @ replicate 4 (Run 0))
        (program [[CallLock ''user1'', CallStop, CallUnlock ''user1'']])) = Some (Some 0) \<and>
   exec Grouplock (((replicate 4 (Run 0) @ [CloseCh]) @ replicate 4 (Run 0)) @ [Ticker])
     (program [[CallLock ''user1'', CallStop, CallUnlock ''user1'']]) = Disabled"
proof -
  let ?c = "program [[CallLock ''user1'', CallStop, CallUnlock ''user1'']]"
  let ?es = "replicate 4 (Run 0) @ [CloseCh]"
  let ?fs = "replicate 4 (Run 0)"
  have s: "Stop locked = Returns (locked\<lparr>closeCh := Closed\<rparr>)"
    by (simp add: Stop_def close_chan_def locked_def)
  have o1: "observe cleaner (exec Grouplock ?es ?c) = Some Cleaner_returned"
    by (simp add: ops numeral_eq_Suc)
  have o2: "observe (entry ''user1'') (exec Grouplock ?es ?c) = Some (Some 0)"
    by (simp add: ops numeral_eq_Suc)
  have o3: "observe (entry ''user1'') (exec Grouplock (?es @ ?fs) ?c) = Some (Some 0)"
    by (simp add: ops numeral_eq_Suc)
  from o1 o2 obtain c where x: "exec Grouplock ?es ?c = Steps c"
    and r: "cleaner c = Cleaner_returned" and e: "entry ''user1'' c = Some 0"
    by (auto dest!: observeD)
  from o3 obtain c1 where y: "exec Grouplock (?es @ ?fs) ?c = Steps c1"
    by (auto dest: observeD)
  then have z: "exec Grouplock ?fs c = Steps c1"
    by (simp only: exec_append_Steps [OF x])
  from Stop_ends_sweep_when_seen [where v = Grouplock and c = c and es = ?fs and ?c1.0 = c1] r z e
  have "cleaner c1 = Cleaner_returned \<and> entry ''user1'' c1 = Some 0"
    by blast
  then have "step Grouplock Ticker c1 = Disabled"
    by simp
  then have t: "exec Grouplock ((?es @ ?fs) @ [Ticker]) ?c = Disabled"
    by (simp only: exec_snoc [OF y])
  from s o1 o2 o3 t show ?thesis
    by blast
qed

text \<open>
  A pass after \<open>Stop\<close>: goroutine 0 locks \<open>user1\<close>, calls \<open>Stop\<close>, which returns, and
  unlocks \<open>user1\<close>. The channel is closed and the entry is there. Then the \<open>select\<close> of
  the cleaner takes a tick, and the pass removes the entry.
\<close>

theorem sweep_after_Stop:
  "observe (closeCh \<circ> shared)
     (exec Grouplock (replicate 4 (Run 0))
        (program [[CallLock ''user1'', CallStop, CallUnlock ''user1'']])) = Some Closed \<and>
   observe (entry ''user1'')
     (exec Grouplock (replicate 8 (Run 0))
        (program [[CallLock ''user1'', CallStop, CallUnlock ''user1'']])) = Some (Some 0) \<and>
   observe (entry ''user1'')
     (exec Grouplock (replicate 8 (Run 0) @ [Ticker] @ replicate 6 Sweep)
        (program [[CallLock ''user1'', CallStop, CallUnlock ''user1'']])) = Some None"
  by (simp add: ops numeral_eq_Suc)

section \<open>Pending keys without an entry\<close>

text \<open>
  C10. A pass of the sweep over a state in which the key \<open>k\<close> is pending: if \<open>k\<close> has no
  entry, then after the pass \<open>k\<close> is still pending and still has no entry; and \<open>k\<close> has
  left the pending set after the pass exactly when it had an entry before the pass and
  has none after it. This holds for grouplock's pass, for a pass of klocker that runs to
  its end, and, as far as it goes, for a pass of klocker that waits at a mutex.
\<close>

theorem cleanup_pending_key:
  assumes "k \<in> set (cleanKeys gl)"
  shows "(locks gl k = None \<longrightarrow>
            k \<in> set (cleanKeys (cleanup gl)) \<and> locks (cleanup gl) k = None) \<and>
         (k \<notin> set (cleanKeys (cleanup gl)) \<longleftrightarrow>
            locks gl k \<noteq> None \<and> locks (cleanup gl) k = None) \<and>
         (\<forall>gl1. klocker_cleanup gl = Returns gl1 \<longrightarrow>
            (locks gl k = None \<longrightarrow> k \<in> set (cleanKeys gl1) \<and> locks gl1 k = None) \<and>
            (k \<notin> set (cleanKeys gl1) \<longleftrightarrow> locks gl k \<noteq> None \<and> locks gl1 k = None)) \<and>
         (\<forall>gl1. klocker_cleanup gl = Blocks gl1 \<longrightarrow>
            k \<in> set (cleanKeys gl1) \<and> (locks gl k = None \<longrightarrow> locks gl1 k = None))"
  using assms
  by (auto simp: klocker_cleanup_eq cleanup_eq swept_def idle_def split: if_splits option.splits)

theorem cleanup_pending_key_witness:
  "''user1'' \<in> set (cleanKeys orphaned) \<and> locks orphaned ''user1'' = None \<and>
   ''user1'' \<in> set (cleanKeys (cleanup orphaned)) \<and> locks (cleanup orphaned) ''user1'' = None \<and>
   klocker_cleanup orphaned = Returns (cleanup orphaned)"
proof -
  have k: "''user1'' \<in> set (cleanKeys orphaned)" and l: "locks orphaned ''user1'' = None"
    by (simp_all add: orphaned_def)
  have r: "klocker_cleanup orphaned = Returns (cleanup orphaned)"
    by (simp add: klocker_cleanup_eq held_def orphaned_def)
  from cleanup_pending_key [OF k] k l r show ?thesis
    by blast
qed

end
